theory Spec2Isabelle
  imports Complex_Main "HOL-Library.Log_Nat"
begin

section \<open>The Connect Four player of connect4player.py\<close>

text \<open>
  The rack is column-major: \<open>rack ! c ! r\<close> is the cell of column \<open>c\<close> (0 on the left) and
  row \<open>r\<close> (0 at the bottom). A cell is a Python int: 0 for no disc, 1 or 2 for a disc of
  that player. \<open>shape\<close> is the pair \<open>(num_cols, num_rows)\<close>.

  The search mutates one numpy array in place. The model passes the array's contents
  explicitly: every function that writes to the array returns the new contents.

  \<open>score[0] / ply\<close> is Python's true division of two ints: its result is the float
  (IEEE 754 double) nearest to the exact quotient. A score is therefore an int or a
  float; the model takes both as the rational number they denote, on which Python's
  comparisons of ints and floats are exact.
\<close>

type_synonym rack = "int list list"
type_synonym shape = "nat \<times> nat"

record computer_player =
  ID :: int
  MAX_PLIES :: int

datatype error = IndexError | ValueError | ZeroDivisionError | OverflowError | RecursionError

subsection \<open>True division of ints\<close>

text \<open>
  \<open>round_half_even\<close> rounds to the nearest integer, ties to the even one. For positive
  \<open>n\<close> and \<open>d\<close>, \<open>binade n d\<close> is the exponent \<open>q\<close> for which \<open>n / d\<close> lies between
  \<open>2 ^ 52 * 2 ^ q\<close> and \<open>2 ^ 53 * 2 ^ q\<close>, found from the bit lengths of \<open>n\<close> and \<open>d\<close>;
  doubles below \<open>2 ^ - 1022\<close> are multiples of \<open>2 ^ - 1074\<close>. \<open>nearest_double n d\<close> is the
  double nearest to \<open>n / d\<close>, and \<open>int_true_divide a b\<close> is Python's \<open>a / b\<close> on ints, with
  its two exceptions.
\<close>

definition round_half_even :: "rat \<Rightarrow> int" where
  "round_half_even y =
     (let f = \<lfloor>y\<rfloor>; r = y - of_int f in
      if r < 1 / 2 then f else if 1 / 2 < r then f + 1 else if even f then f else f + 1)"

definition binade :: "int \<Rightarrow> int \<Rightarrow> int" where
  "binade n d =
     (let q = bitlen n - bitlen d - 53 in
      if 2 ^ 53 \<le> (of_int n / of_int d) * power_int (2 :: rat) (- q) then q + 1 else q)"

definition nearest_double :: "int \<Rightarrow> int \<Rightarrow> rat" where
  "nearest_double n d =
     (let q = max (binade n d) (- 1074);
          m = round_half_even ((of_int n / of_int d) * power_int 2 (- q))
      in of_int m * power_int 2 q)"

definition int_true_divide :: "int \<Rightarrow> int \<Rightarrow> error + rat" where
  "int_true_divide a b =
     (if b = 0 then Inl ZeroDivisionError
      else if a = 0 then Inr 0
      else
        (let v = nearest_double \<bar>a\<bar> \<bar>b\<bar>
         in if 2 ^ 1024 \<le> v then Inl OverflowError
            else Inr (if (a < 0) = (b < 0) then v else - v)))"

subsection \<open>\<open>_quartet_score\<close>\<close>

definition quartet_score :: "computer_player \<Rightarrow> int \<Rightarrow> int \<Rightarrow> int \<Rightarrow> int \<Rightarrow> int \<times> bool" where
  "quartet_score self disc1 disc2 disc3 disc4 =
     (if disc1 = disc2 \<and> disc2 = disc3 \<and> disc3 = disc4 then
        (if disc1 = 0 then (0, False)
         else if disc1 = ID self then (1000000000, True)
         else (- 1000000000, True))
      else if (disc1 = 1 \<or> disc2 = 1 \<or> disc3 = 1 \<or> disc4 = 1)
            \<and> (disc1 = 2 \<or> disc2 = 2 \<or> disc3 = 2 \<or> disc4 = 2) then (0, False)
      else
        (let pid = (if disc1 = 1 \<or> disc2 = 1 \<or> disc3 = 1 \<or> disc4 = 1 then 1 else 2 :: int);
             zeros = (if disc1 = 0 then 1 else 0) + (if disc2 = 0 then 1 else 0)
                   + (if disc3 = 0 then 1 else 0) + (if disc4 = 0 then 1 else (0 :: nat))
         in if zeros = 3 then (if pid = ID self then (1, False) else (- 1, False))
            else if zeros = 2 then (if pid = ID self then (10, False) else (- 10, False))
            else (if pid = ID self then (100, False) else (- 100, False))))"

subsection \<open>\<open>_board_state_score\<close>\<close>

text \<open>
  The body of an innermost \<open>for j in range(...)\<close> loop computes one quartet's result
  \<open>tmp\<close>; a win leaves the whole function with \<open>tmp\<close> (\<open>Inl\<close>), otherwise the running
  score grows by \<open>tmp[0]\<close> and the loop goes on (\<open>Inr\<close> is the score after the loop).
\<close>

fun for_j :: "(nat \<Rightarrow> int \<times> bool) \<Rightarrow> nat list \<Rightarrow> int \<Rightarrow> (int \<times> bool) + int" where
  "for_j body [] score = Inr score"
| "for_j body (j # js) score =
     (let tmp = body j in
      if snd tmp then Inl tmp else for_j body js (score + fst tmp))"

fun for_i :: "(nat \<Rightarrow> nat \<Rightarrow> int \<times> bool) \<Rightarrow> nat list \<Rightarrow> nat list \<Rightarrow> int \<Rightarrow> (int \<times> bool) + int" where
  "for_i body [] js score = Inr score"
| "for_i body (i # is) js score =
     (case for_j (body i) js score of
        Inl tmp \<Rightarrow> Inl tmp
      | Inr score' \<Rightarrow> for_i body is js score')"

definition vertical :: "computer_player \<Rightarrow> rack \<Rightarrow> nat \<Rightarrow> nat \<Rightarrow> int \<times> bool" where
  "vertical self rack i j =
     quartet_score self (rack ! i ! j) (rack ! i ! (j + 1)) (rack ! i ! (j + 2)) (rack ! i ! (j + 3))"

definition horizontal :: "computer_player \<Rightarrow> rack \<Rightarrow> nat \<Rightarrow> nat \<Rightarrow> int \<times> bool" where
  "horizontal self rack i j =
     quartet_score self (rack ! i ! j) (rack ! (i + 1) ! j) (rack ! (i + 2) ! j) (rack ! (i + 3) ! j)"

definition rising :: "computer_player \<Rightarrow> rack \<Rightarrow> nat \<Rightarrow> nat \<Rightarrow> int \<times> bool" where
  "rising self rack i j =
     quartet_score self (rack ! i ! j) (rack ! (i + 1) ! (j + 1)) (rack ! (i + 2) ! (j + 2))
       (rack ! (i + 3) ! (j + 3))"

definition falling :: "computer_player \<Rightarrow> rack \<Rightarrow> nat \<Rightarrow> nat \<Rightarrow> int \<times> bool" where
  "falling self rack i j =
     quartet_score self (rack ! i ! j) (rack ! (i - 1) ! (j + 1)) (rack ! (i - 2) ! (j + 2))
       (rack ! (i - 3) ! (j + 3))"

definition board_state_score :: "computer_player \<Rightarrow> rack \<Rightarrow> shape \<Rightarrow> int \<times> bool" where
  "board_state_score self rack shape =
     (case (if snd shape > 3
            then for_i (vertical self rack) [0 ..< fst shape] [0 ..< snd shape - 3] 0
            else Inr 0) of
        Inl tmp \<Rightarrow> tmp
      | Inr score1 \<Rightarrow>
     (case (if fst shape > 3
            then for_i (horizontal self rack) [0 ..< fst shape - 3] [0 ..< snd shape] score1
            else Inr score1) of
        Inl tmp \<Rightarrow> tmp
      | Inr score2 \<Rightarrow>
     (case (if fst shape > 3 \<and> snd shape > 3
            then (case for_i (rising self rack) [0 ..< fst shape - 3] [0 ..< snd shape - 3] score2 of
                    Inl tmp \<Rightarrow> Inl tmp
                  | Inr score3 \<Rightarrow>
                      for_i (falling self rack) [3 ..< fst shape] [0 ..< snd shape - 3] score3)
            else Inr score2) of
        Inl tmp \<Rightarrow> tmp
      | Inr score4 \<Rightarrow> (score4, False))))"

subsection \<open>\<open>_make_move\<close>, \<open>_unmake_move\<close>, \<open>_rack_full\<close>\<close>

definition set_cell :: "rack \<Rightarrow> nat \<Rightarrow> nat \<Rightarrow> int \<Rightarrow> rack" where
  "set_cell rack col i v = rack[col := (rack ! col)[i := v]]"

text \<open>
  The \<open>while i < shape[1]\<close> loop of \<open>_make_move\<close>. Falling off its end returns Python's
  \<open>None\<close>, which every caller tests as false.
\<close>

function make_move_loop :: "rack \<Rightarrow> nat \<Rightarrow> shape \<Rightarrow> int \<Rightarrow> nat \<Rightarrow> bool \<times> rack" where
  "make_move_loop rack col shape player i =
     (if i < snd shape then
        (if rack ! col ! i = 0 then (True, set_cell rack col i player)
         else make_move_loop rack col shape player (i + 1))
      else (False, rack))"
  by pat_completeness auto
termination
  by (relation "measure (\<lambda>(rack, col, shape, player, i). snd shape - i)") auto

definition make_move :: "rack \<Rightarrow> nat \<Rightarrow> shape \<Rightarrow> int \<Rightarrow> bool \<times> rack" where
  "make_move rack col shape player =
     (if rack ! col ! (snd shape - 1) \<noteq> 0 then (False, rack)
      else make_move_loop rack col shape player 0)"

text \<open>
  The \<open>while i >= 0\<close> loop of \<open>_unmake_move\<close>, counting down from \<open>shape[1] - 1\<close>: the
  argument \<open>Suc i\<close> stands for the loop at index \<open>i\<close>, and \<open>0\<close> for \<open>i = -1\<close>.
\<close>

fun unmake_move_loop :: "rack \<Rightarrow> nat \<Rightarrow> nat \<Rightarrow> bool \<times> rack" where
  "unmake_move_loop rack col 0 = (False, rack)"
| "unmake_move_loop rack col (Suc i) =
     (if rack ! col ! i \<noteq> 0 then (True, set_cell rack col i 0)
      else unmake_move_loop rack col i)"

definition unmake_move :: "rack \<Rightarrow> nat \<Rightarrow> shape \<Rightarrow> bool \<times> rack" where
  "unmake_move rack col shape = unmake_move_loop rack col (snd shape)"

fun rack_full_loop :: "rack \<Rightarrow> shape \<Rightarrow> nat list \<Rightarrow> bool" where
  "rack_full_loop rack shape [] = True"
| "rack_full_loop rack shape (i # is) =
     (if rack ! i ! (snd shape - 1) = 0 then False else rack_full_loop rack shape is)"

definition rack_full :: "rack \<Rightarrow> shape \<Rightarrow> bool" where
  "rack_full rack shape = rack_full_loop rack shape [0 ..< fst shape]"

subsection \<open>\<open>_minimax\<close>\<close>

text \<open>
  The column loop of \<open>_minimax\<close>. \<open>rec\<close> is the recursive call \<open>self._minimax\<close>; it
  returns its score together with the contents of the array after the call.
\<close>

function minimax_loop ::
  "(rack \<Rightarrow> shape \<Rightarrow> int \<Rightarrow> error + rat \<times> rack) \<Rightarrow> rack \<Rightarrow> shape \<Rightarrow> int \<Rightarrow> int
     \<Rightarrow> nat \<Rightarrow> rat \<Rightarrow> rat \<Rightarrow> error + rat \<times> rat \<times> rack" where
  "minimax_loop rec rack shape ply player i high_score low_score =
     (if i < fst shape then
        (case make_move rack i shape player of
           (True, rack1) \<Rightarrow>
             (case rec rack1 shape (ply + 1) of
                Inl e \<Rightarrow> Inl e
              | Inr (score, rack2) \<Rightarrow>
                  minimax_loop rec (snd (unmake_move rack2 i shape)) shape ply player (i + 1)
                    (if score > high_score then score else high_score)
                    (if score < low_score then score else low_score))
         | (False, rack1) \<Rightarrow>
             minimax_loop rec rack1 shape ply player (i + 1) high_score low_score)
      else Inr (high_score, low_score, rack))"
  by pat_completeness auto
termination
  by (relation "measure (\<lambda>(rec, rack, shape, ply, player, i, high_score, low_score). fst shape - i)")
    auto

text \<open>
  The result of the win check and of the depth cutoff, \<open>return score[0] / ply\<close>: the
  float quotient, or the exception of the division.
\<close>

definition divide_by_ply :: "int \<Rightarrow> int \<Rightarrow> rack \<Rightarrow> error + rat \<times> rack" where
  "divide_by_ply score ply rack =
     (case int_true_divide score ply of
        Inl e \<Rightarrow> Inl e
      | Inr v \<Rightarrow> Inr (v, rack))"

text \<open>
  \<open>_minimax\<close>. The first argument bounds the depth of the recursion, as Python's recursion
  limit does: a call that would exceed it raises \<open>RecursionError\<close>.
\<close>

primrec minimax ::
  "nat \<Rightarrow> computer_player \<Rightarrow> rack \<Rightarrow> shape \<Rightarrow> int \<Rightarrow> error + rat \<times> rack" where
  "minimax 0 self rack shape ply = Inl RecursionError"
| "minimax (Suc depth) self rack shape ply =
     (let score = board_state_score self rack shape in
      if snd score then divide_by_ply (fst score) ply rack
      else if rack_full rack shape then Inr (0, rack)
      else if ply = MAX_PLIES self then
        (let score = board_state_score self rack shape in
         if snd score then divide_by_ply (fst score) ply rack
         else Inr (rat_of_int (fst score), rack))
      else
        (let player = (if ply mod 2 = 1 then (if ID self = 1 then 2 else 1) else ID self) in
         case minimax_loop (minimax depth self) rack shape ply player 0
                (- 10000000000) 10000000000 of
           Inl e \<Rightarrow> Inl e
         | Inr (high_score, low_score, rack') \<Rightarrow>
             if ID self \<noteq> player then Inr (low_score, rack') else Inr (high_score, rack')))"

subsection \<open>\<open>pick_move\<close>\<close>

function pick_move_loop ::
  "nat \<Rightarrow> computer_player \<Rightarrow> rack \<Rightarrow> shape \<Rightarrow> nat \<Rightarrow> nat \<Rightarrow> rat \<Rightarrow> error + nat \<times> rat \<times> rack" where
  "pick_move_loop depth self rack shape i best_move high_score =
     (if i < fst shape then
        (case make_move rack i shape (ID self) of
           (True, rack1) \<Rightarrow>
             (case minimax depth self rack1 shape 1 of
                Inl e \<Rightarrow> Inl e
              | Inr (score, rack2) \<Rightarrow>
                  pick_move_loop depth self (snd (unmake_move rack2 i shape)) shape (i + 1)
                    (if score > high_score then i else best_move)
                    (if score > high_score then score else high_score))
         | (False, rack1) \<Rightarrow>
             pick_move_loop depth self rack1 shape (i + 1) best_move high_score)
      else Inr (best_move, high_score, rack))"
  by pat_completeness auto
termination
  by (relation "measure (\<lambda>(depth, self, rack, shape, i, best_move, high_score). fst shape - i)")
    auto

text \<open>
  \<open>np.full(shape, rack, dtype=int, order='F')\<close> builds a new array of the given shape
  and copies the rack into it; a rack whose columns differ in length cannot be copied.
\<close>

definition np_full :: "shape \<Rightarrow> rack \<Rightarrow> error + rack" where
  "np_full shape rack =
     (if list_all (\<lambda>col. length col = snd shape) rack then Inr rack else Inl ValueError)"

text \<open>
  \<open>pick_move\<close> on a store of objects: \<open>heap ! r\<close> is the caller's rack, and the array
  \<open>numpy_rack\<close> is a new object at the first free address. The result is the returned
  value (\<open>None\<close> is Python's \<open>None\<close>) or the exception raised, and the store afterwards.
  An empty rack fails at \<open>len(rack[0])\<close>, a rack with no rows at the first
  \<open>rack[i][shape[1]-1]\<close> of \<open>_rack_full\<close>.
\<close>

definition pick_move ::
  "nat \<Rightarrow> computer_player \<Rightarrow> rack list \<Rightarrow> nat \<Rightarrow> (error + nat option) \<times> rack list" where
  "pick_move depth self heap r =
     (let rack = heap ! r in
      if rack = [] then (Inl IndexError, heap)
      else
        (let shape = (length rack, length (rack ! 0)) in
         case np_full shape rack of
           Inl e \<Rightarrow> (Inl e, heap)
         | Inr numpy_rack \<Rightarrow>
             (let a = length heap; heap1 = heap @ [numpy_rack] in
              if snd shape = 0 then (Inl IndexError, heap1)
              else if rack_full (heap1 ! a) shape then (Inr None, heap1)
              else
                (case pick_move_loop depth self (heap1 ! a) shape 0 0 (- 10000000000) of
                   Inl e \<Rightarrow> (Inl e, heap1)
                 | Inr (best_move, high_score, rack') \<Rightarrow>
                     (Inr (Some best_move), heap1[a := rack'])))))"

section \<open>The specification's notions\<close>

subsection \<open>The quartets of a board, in the order of enumeration\<close>

text \<open>
  The specification's \<open>board_state_score\<close>: the quartets of the four directions in turn
  (a direction whose span of four does not fit has none); the first winning quartet's
  result if there is one, otherwise the sum of all scores.
\<close>

definition quartet_result :: "computer_player \<Rightarrow> int \<times> int \<times> int \<times> int \<Rightarrow> int \<times> bool" where
  "quartet_result self q = (case q of (a, b, c, d) \<Rightarrow> quartet_score self a b c d)"

definition vertical_quartets :: "rack \<Rightarrow> shape \<Rightarrow> (int \<times> int \<times> int \<times> int) list" where
  "vertical_quartets rack shape =
     (if snd shape < 4 then []
      else concat (map (\<lambda>i. map (\<lambda>j. (rack ! i ! j, rack ! i ! (j + 1), rack ! i ! (j + 2),
                                         rack ! i ! (j + 3))) [0 ..< snd shape - 3])
                       [0 ..< fst shape]))"

definition horizontal_quartets :: "rack \<Rightarrow> shape \<Rightarrow> (int \<times> int \<times> int \<times> int) list" where
  "horizontal_quartets rack shape =
     (if fst shape < 4 then []
      else concat (map (\<lambda>i. map (\<lambda>j. (rack ! i ! j, rack ! (i + 1) ! j, rack ! (i + 2) ! j,
                                         rack ! (i + 3) ! j)) [0 ..< snd shape])
                       [0 ..< fst shape - 3]))"

definition rising_quartets :: "rack \<Rightarrow> shape \<Rightarrow> (int \<times> int \<times> int \<times> int) list" where
  "rising_quartets rack shape =
     (if fst shape < 4 \<or> snd shape < 4 then []
      else concat (map (\<lambda>i. map (\<lambda>j. (rack ! i ! j, rack ! (i + 1) ! (j + 1),
                                         rack ! (i + 2) ! (j + 2), rack ! (i + 3) ! (j + 3)))
                                  [0 ..< snd shape - 3])
                       [0 ..< fst shape - 3]))"

definition falling_quartets :: "rack \<Rightarrow> shape \<Rightarrow> (int \<times> int \<times> int \<times> int) list" where
  "falling_quartets rack shape =
     (if fst shape < 4 \<or> snd shape < 4 then []
      else concat (map (\<lambda>i. map (\<lambda>j. (rack ! i ! j, rack ! (i - 1) ! (j + 1),
                                         rack ! (i - 2) ! (j + 2), rack ! (i - 3) ! (j + 3)))
                                  [0 ..< snd shape - 3])
                       [3 ..< fst shape]))"

definition enumerated_quartets :: "rack \<Rightarrow> shape \<Rightarrow> (int \<times> int \<times> int \<times> int) list" where
  "enumerated_quartets rack shape =
     vertical_quartets rack shape @ horizontal_quartets rack shape
       @ rising_quartets rack shape @ falling_quartets rack shape"

definition spec_board_state_score :: "computer_player \<Rightarrow> rack \<Rightarrow> shape \<Rightarrow> int \<times> bool" where
  "spec_board_state_score self rack shape =
     (case List.find snd (map (quartet_result self) (enumerated_quartets rack shape)) of
        Some win \<Rightarrow> win
      | None \<Rightarrow> (sum_list (map fst (map (quartet_result self) (enumerated_quartets rack shape))),
                 False))"

text \<open>What a run of the scoring loops over a list of quartet results amounts to.\<close>

definition scan :: "(int \<times> bool) list \<Rightarrow> int \<Rightarrow> (int \<times> bool) + int" where
  "scan results score =
     (case List.find snd results of
        Some win \<Rightarrow> Inl win
      | None \<Rightarrow> Inr (score + sum_list (map fst results)))"

subsection \<open>The variant of \<open>_minimax\<close> without the second win check\<close>

text \<open>
  \<open>_minimax\<close> with the depth cutoff returning the raw aggregate score unconditionally.
\<close>

primrec minimax_raw_cutoff ::
  "nat \<Rightarrow> computer_player \<Rightarrow> rack \<Rightarrow> shape \<Rightarrow> int \<Rightarrow> error + rat \<times> rack" where
  "minimax_raw_cutoff 0 self rack shape ply = Inl RecursionError"
| "minimax_raw_cutoff (Suc depth) self rack shape ply =
     (let score = board_state_score self rack shape in
      if snd score then divide_by_ply (fst score) ply rack
      else if rack_full rack shape then Inr (0, rack)
      else if ply = MAX_PLIES self then Inr (rat_of_int (fst score), rack)
      else
        (let player = (if ply mod 2 = 1 then (if ID self = 1 then 2 else 1) else ID self) in
         case minimax_loop (minimax_raw_cutoff depth self) rack shape ply player 0
                (- 10000000000) 10000000000 of
           Inl e \<Rightarrow> Inl e
         | Inr (high_score, low_score, rack') \<Rightarrow>
             if ID self \<noteq> player then Inr (low_score, rack') else Inr (high_score, rack')))"

subsection \<open>Boards of the data model\<close>

text \<open>
  A column is gravity-consistent when no disc lies above an empty cell: from the first
  empty cell on, every cell is empty. \<open>height\<close> is the number of discs at the bottom of a
  column, \<open>drop_disc\<close> the board with the player's disc on top of them. A valid board has
  the given shape, at least one column and one row, and only gravity-consistent columns.
  A column is legal for a move when its top cell is empty; \<open>legal_from rack shape i\<close> are
  the legal columns from \<open>i\<close> on, from left to right. \<open>free_cells\<close> counts the cells above
  the discs, and \<open>heuristic_bound\<close> bounds the aggregate score of a board without a win:
  at most four quartets start at a cell, each worth at most 100.
\<close>

definition gravity :: "int list \<Rightarrow> bool" where
  "gravity col = list_all (\<lambda>v. v = 0) (dropWhile (\<lambda>v. v \<noteq> 0) col)"

definition height :: "int list \<Rightarrow> nat" where
  "height col = length (takeWhile (\<lambda>v. v \<noteq> 0) col)"

definition drop_disc :: "rack \<Rightarrow> nat \<Rightarrow> int \<Rightarrow> rack" where
  "drop_disc rack col player = set_cell rack col (height (rack ! col)) player"

definition valid_board :: "rack \<Rightarrow> shape \<Rightarrow> bool" where
  "valid_board rack shape =
     (length rack = fst shape \<and> 0 < fst shape \<and> 0 < snd shape
      \<and> list_all (\<lambda>col. length col = snd shape \<and> gravity col) rack)"

definition legal :: "rack \<Rightarrow> shape \<Rightarrow> nat \<Rightarrow> bool" where
  "legal rack shape c = (rack ! c ! (snd shape - 1) = 0)"

definition legal_from :: "rack \<Rightarrow> shape \<Rightarrow> nat \<Rightarrow> nat list" where
  "legal_from rack shape i = filter (legal rack shape) [i ..< fst shape]"

definition free_cells :: "rack \<Rightarrow> nat" where
  "free_cells rack = sum_list (map (\<lambda>col. length col - height col) rack)"

definition heuristic_bound :: "shape \<Rightarrow> rat" where
  "heuristic_bound shape = rat_of_nat (400 * fst shape * snd shape)"

text \<open>
  \<open>replaced p q q'\<close>: the quartet \<open>q'\<close> is \<open>q\<close> with some of its cells replaced by \<open>p\<close>, as
  the quartets of a board are after the player \<open>p\<close> has moved.
\<close>

definition replaced :: "int \<Rightarrow> int \<times> int \<times> int \<times> int \<Rightarrow> int \<times> int \<times> int \<times> int \<Rightarrow> bool" where
  "replaced p q q' =
     (case q of (x1, x2, x3, x4) \<Rightarrow> case q' of (y1, y2, y3, y4) \<Rightarrow>
        (y1 = x1 \<or> y1 = p) \<and> (y2 = x2 \<or> y2 = p) \<and> (y3 = x3 \<or> y3 = p) \<and> (y4 = x4 \<or> y4 = p))"

section \<open>The static evaluator\<close>

subsection \<open>\<open>_quartet_score\<close>\<close>

text \<open>
  Claim C6: four identical non-empty cells score \<open>(1000000000, True)\<close> when the common
  player is the engine's id and \<open>(- 1000000000, True)\<close> otherwise; four empty cells score
  \<open>(0, False)\<close>; a quartet with discs of both players scores \<open>(0, False)\<close>; a quartet of
  \<open>k\<close> discs (1 to 3) of exactly one player \<open>p\<close> and empties otherwise scores 1, 10, 100
  for \<open>k\<close> = 1, 2, 3, positive if \<open>p\<close> is the engine's id and negative otherwise, and is
  no win.
\<close>

theorem quartet_score_cases:
  "(d \<noteq> 0 \<longrightarrow> quartet_score self d d d d
       = (if d = ID self then (1000000000, True) else (- 1000000000, True)))
   \<and> quartet_score self 0 0 0 0 = (0, False)
   \<and> (set [d1, d2, d3, d4] \<subseteq> {0, 1, 2} \<and> 1 \<in> set [d1, d2, d3, d4] \<and> 2 \<in> set [d1, d2, d3, d4]
        \<longrightarrow> quartet_score self d1 d2 d3 d4 = (0, False))
   \<and> ((p = 1 \<or> p = 2) \<and> set [c1, c2, c3, c4] \<subseteq> {0, p}
        \<and> k = count_list [c1, c2, c3, c4] p \<and> 1 \<le> k \<and> k \<le> 3
        \<longrightarrow> quartet_score self c1 c2 c3 c4
            = ((if p = ID self then 1 else - 1) * 10 ^ (k - 1), False))"
proof (intro conjI impI)
  assume "d \<noteq> 0"
  then show "quartet_score self d d d d
       = (if d = ID self then (1000000000, True) else (- 1000000000, True))"
    by (simp add: quartet_score_def)
next
  show "quartet_score self 0 0 0 0 = (0, False)"
    by (simp add: quartet_score_def)
next
  assume a: "set [d1, d2, d3, d4] \<subseteq> {0, 1, 2} \<and> 1 \<in> set [d1, d2, d3, d4] \<and> 2 \<in> set [d1, d2, d3, d4]"
  from a have one: "d1 = 1 \<or> d2 = 1 \<or> d3 = 1 \<or> d4 = 1" by simp
  from a have two: "d1 = 2 \<or> d2 = 2 \<or> d3 = 2 \<or> d4 = 2" by simp
  from one two have ne: "\<not> (d1 = d2 \<and> d2 = d3 \<and> d3 = d4)" by presburger
  show "quartet_score self d1 d2 d3 d4 = (0, False)"
    by (simp add: quartet_score_def ne one two)
next
  assume a: "(p = 1 \<or> p = 2) \<and> set [c1, c2, c3, c4] \<subseteq> {0, p}
        \<and> k = count_list [c1, c2, c3, c4] p \<and> 1 \<le> k \<and> k \<le> 3"
  then have d: "c1 = 0 \<or> c1 = p" "c2 = 0 \<or> c2 = p" "c3 = 0 \<or> c3 = p" "c4 = 0 \<or> c4 = p"
    and p: "p = 1 \<or> p = 2" and k: "k = count_list [c1, c2, c3, c4] p" "1 \<le> k" "k \<le> 3"
    by auto
  from p d k show "quartet_score self c1 c2 c3 c4
            = ((if p = ID self then 1 else - 1) * 10 ^ (k - 1), False)"
    by (elim disjE) (simp_all add: quartet_score_def)
qed

theorem quartet_score_cases_witness:
  "quartet_score \<lparr>ID = 1, MAX_PLIES = 1\<rparr> 2 2 2 2 = (- 1000000000, True)
   \<and> quartet_score \<lparr>ID = 1, MAX_PLIES = 1\<rparr> 0 0 0 0 = (0, False)
   \<and> quartet_score \<lparr>ID = 1, MAX_PLIES = 1\<rparr> 1 2 0 0 = (0, False)
   \<and> quartet_score \<lparr>ID = 1, MAX_PLIES = 1\<rparr> 0 1 1 0 = (10, False)"
  using quartet_score_cases [where self = "\<lparr>ID = 1, MAX_PLIES = 1\<rparr>" and d = 2
      and ?d1.0 = 1 and ?d2.0 = 2 and ?d3.0 = 0 and ?d4.0 = 0 and p = 1 and k = 2
      and ?c1.0 = 0 and ?c2.0 = 1 and ?c3.0 = 1 and ?c4.0 = 0]
  by simp

subsection \<open>\<open>_board_state_score\<close>\<close>

lemma scan_Nil: "scan [] score = Inr score"
  by (simp add: scan_def)

lemma scan_Cons:
  "scan (x # xs) score = (if snd x then Inl x else scan xs (score + fst x))"
  by (simp add: scan_def add.assoc split: option.splits)

lemma scan_append:
  "scan (xs @ ys) score = (case scan xs score of Inl win \<Rightarrow> Inl win | Inr score' \<Rightarrow> scan ys score')"
  by (induction xs arbitrary: score) (simp_all add: scan_Nil scan_Cons)

lemma for_j_scan: "for_j body js score = scan (map body js) score"
  by (induction js arbitrary: score) (simp_all add: scan_Nil scan_Cons Let_def)

lemma for_i_scan:
  "for_i body is js score = scan (concat (map (\<lambda>i. map (body i) js) is)) score"
proof (induction "is" arbitrary: score)
  case Nil
  show ?case by (simp add: scan_Nil)
next
  case (Cons i "is")
  show ?case
    by (simp add: scan_append for_j_scan Cons.IH split: sum.splits)
qed

lemma map_concat_map:
  "map f (concat (map (\<lambda>i. map (g i) js) is)) = concat (map (\<lambda>i. map (\<lambda>j. f (g i j)) js) is)"
  by (induction "is") simp_all

lemma vertical_scan:
  "(if snd shape > 3
    then for_i (vertical self rack) [0 ..< fst shape] [0 ..< snd shape - 3] score
    else Inr score) = scan (map (quartet_result self) (vertical_quartets rack shape)) score"
  by (simp add: for_i_scan vertical_quartets_def map_concat_map quartet_result_def vertical_def [abs_def]
      scan_Nil not_less)

lemma horizontal_scan:
  "(if fst shape > 3
    then for_i (horizontal self rack) [0 ..< fst shape - 3] [0 ..< snd shape] score
    else Inr score) = scan (map (quartet_result self) (horizontal_quartets rack shape)) score"
  by (simp add: for_i_scan horizontal_quartets_def map_concat_map quartet_result_def
      horizontal_def [abs_def] scan_Nil not_less)

lemma rising_scan:
  "3 < fst shape \<Longrightarrow> 3 < snd shape \<Longrightarrow>
   for_i (rising self rack) [0 ..< fst shape - 3] [0 ..< snd shape - 3] score
     = scan (map (quartet_result self) (rising_quartets rack shape)) score"
  by (simp add: for_i_scan rising_quartets_def map_concat_map quartet_result_def
      rising_def [abs_def])

lemma falling_scan:
  "3 < fst shape \<Longrightarrow> 3 < snd shape \<Longrightarrow>
   for_i (falling self rack) [3 ..< fst shape] [0 ..< snd shape - 3] score
     = scan (map (quartet_result self) (falling_quartets rack shape)) score"
  by (simp add: for_i_scan falling_quartets_def map_concat_map quartet_result_def
      falling_def [abs_def])

lemma diagonal_scan:
  "(if fst shape > 3 \<and> snd shape > 3
    then (case for_i (rising self rack) [0 ..< fst shape - 3] [0 ..< snd shape - 3] score of
            Inl tmp \<Rightarrow> Inl tmp
          | Inr score3 \<Rightarrow> for_i (falling self rack) [3 ..< fst shape] [0 ..< snd shape - 3] score3)
    else Inr score)
   = scan (map (quartet_result self) (rising_quartets rack shape @ falling_quartets rack shape))
       score"
proof (cases "fst shape > 3 \<and> snd shape > 3")
  case True
  then show ?thesis
    by (simp add: rising_scan falling_scan scan_append split: sum.splits)
next
  case False
  then have "rising_quartets rack shape = []" "falling_quartets rack shape = []"
    by (auto simp add: rising_quartets_def falling_quartets_def)
  with False show ?thesis
    by (auto simp add: scan_Nil)
qed

lemma board_state_score_scan:
  "board_state_score self rack shape =
     (case scan (map (quartet_result self) (enumerated_quartets rack shape)) 0 of
        Inl tmp \<Rightarrow> tmp
      | Inr score \<Rightarrow> (score, False))"
  unfolding board_state_score_def vertical_scan horizontal_scan diagonal_scan
  by (simp add: enumerated_quartets_def scan_append split: sum.splits)

text \<open>
  Claim C7: for every board, \<open>_board_state_score\<close> enumerates the vertical, horizontal,
  rising-diagonal and falling-diagonal quartets (none for a direction that a board
  dimension below 4 cannot span); if some enumerated quartet reports a win, the result is
  the first such quartet's pair \<open>(score, True)\<close> alone, otherwise it is the sum of all
  enumerated quartets' scores paired with \<open>False\<close>.
\<close>

theorem board_state_score_spec:
  "board_state_score self rack shape = spec_board_state_score self rack shape"
  by (simp add: board_state_score_scan spec_board_state_score_def scan_def split: option.splits)

theorem board_state_score_spec_witness:
  "spec_board_state_score \<lparr>ID = 1, MAX_PLIES = 1\<rparr> [[1, 1, 1, 1], [2, 2, 2, 0]] (2, 4)
     = (1000000000, True)"
proof -
  have "board_state_score \<lparr>ID = 1, MAX_PLIES = 1\<rparr> [[1, 1, 1, 1], [2, 2, 2, 0]] (2, 4)
     = (1000000000, True)"
    by code_simp
  then show ?thesis
    using board_state_score_spec [of "\<lparr>ID = 1, MAX_PLIES = 1\<rparr>" "[[1, 1, 1, 1], [2, 2, 2, 0]]" "(2, 4)"]
    by simp
qed

section \<open>True division: the nearest double\<close>

lemma round_half_even_error: "\<bar>rat_of_int (round_half_even y) - y\<bar> \<le> 1 / 2"
proof -
  have "rat_of_int \<lfloor>y\<rfloor> \<le> y" "y < rat_of_int \<lfloor>y\<rfloor> + 1"
    by linarith+
  then show ?thesis
    by (auto simp add: round_half_even_def Let_def abs_le_iff)
qed

lemma round_half_even_nonneg: "0 \<le> y \<Longrightarrow> 0 \<le> round_half_even y"
  by (auto simp add: round_half_even_def Let_def)

lemma two_powi_pos: "0 < power_int (2 :: rat) k"
  by simp

lemma two_powi_add: "power_int (2 :: rat) (j + k) = power_int 2 j * power_int 2 k"
  by (simp add: power_int_add)

lemma two_powi_cancel: "power_int (2 :: rat) (- k) * power_int 2 k = 1"
  by (simp add: power_int_minus)

lemma of_int_two_power: "0 \<le> j \<Longrightarrow> rat_of_int (2 ^ nat j) = power_int 2 j"
  by (simp add: power_int_nonneg_exp)

lemma bitlen_bounds_rat:
  assumes "0 < n"
  shows "power_int 2 (bitlen n - 1) \<le> rat_of_int n" and "rat_of_int n < power_int 2 (bitlen n)"
proof -
  have b: "2 ^ nat (bitlen n - 1) \<le> n" "n < 2 ^ nat (bitlen n)"
    using bitlen_bounds [OF assms] by simp_all
  have pos: "1 \<le> bitlen n"
    using assms by (simp add: bitlen_alt_def)
  have "rat_of_int (2 ^ nat (bitlen n - 1)) \<le> rat_of_int n"
    using b(1) by (simp only: of_int_le_iff)
  then show "power_int 2 (bitlen n - 1) \<le> rat_of_int n"
    using pos by (simp add: power_int_nonneg_exp)
  have "rat_of_int n < rat_of_int (2 ^ nat (bitlen n))"
    using b(2) by (simp only: of_int_less_iff)
  then show "rat_of_int n < power_int 2 (bitlen n)"
    using pos by (simp add: power_int_nonneg_exp)
qed

lemma binade_start:
  assumes n: "0 < n" and d: "0 < d"
  shows "2 ^ 52 < (rat_of_int n / rat_of_int d) * power_int 2 (- (bitlen n - bitlen d - 53))"
    and "(rat_of_int n / rat_of_int d) * power_int 2 (- (bitlen n - bitlen d - 53)) < 2 ^ 54"
proof -
  let ?P = "power_int (2 :: rat)"
  let ?q = "bitlen n - bitlen d - 53"
  note bn = bitlen_bounds_rat [OF n]
  note bd = bitlen_bounds_rat [OF d]
  have dpos: "0 < rat_of_int d" using d by simp
  have "rat_of_int d * 2 ^ 52 < ?P (bitlen d) * 2 ^ 52"
    using bd(2) by simp
  also have "\<dots> = ?P (bitlen n - 1) * ?P (- ?q)"
  proof -
    have "?P (bitlen n - 1) * ?P (- ?q) = ?P ((bitlen n - 1) + (- ?q))"
      by (simp only: two_powi_add)
    also have "(bitlen n - 1) + (- ?q) = bitlen d + 52" by simp
    also have "?P (bitlen d + 52) = ?P (bitlen d) * ?P 52"
      by (simp only: two_powi_add)
    finally show ?thesis by simp
  qed
  also have "\<dots> \<le> rat_of_int n * ?P (- ?q)"
    using bn(1) by (simp add: mult_right_mono)
  finally have "rat_of_int d * 2 ^ 52 < rat_of_int n * ?P (- ?q)" .
  then have "2 ^ 52 < rat_of_int n * ?P (- ?q) / rat_of_int d"
    using dpos by (simp add: pos_less_divide_eq mult.commute)
  then show "2 ^ 52 < (rat_of_int n / rat_of_int d) * ?P (- ?q)"
    by simp
  have "rat_of_int n * ?P (- ?q) < ?P (bitlen n) * ?P (- ?q)"
    using bn(2) by (simp add: mult_strict_right_mono)
  also have "\<dots> = ?P (bitlen d - 1) * 2 ^ 54"
  proof -
    have "?P (bitlen n) * ?P (- ?q) = ?P (bitlen n + (- ?q))"
      by (simp only: two_powi_add)
    also have "bitlen n + (- ?q) = (bitlen d - 1) + 54" by simp
    also have "?P ((bitlen d - 1) + 54) = ?P (bitlen d - 1) * ?P 54"
      by (simp only: two_powi_add)
    finally show ?thesis by simp
  qed
  also have "\<dots> \<le> rat_of_int d * 2 ^ 54"
    using bd(1) by (simp add: mult_right_mono)
  finally have "rat_of_int n * ?P (- ?q) < rat_of_int d * 2 ^ 54" .
  then have "rat_of_int n * ?P (- ?q) / rat_of_int d < 2 ^ 54"
    using dpos by (simp add: pos_divide_less_eq mult.commute)
  then show "(rat_of_int n / rat_of_int d) * ?P (- ?q) < 2 ^ 54"
    by simp
qed

lemma binade_range:
  assumes n: "0 < n" and d: "0 < d"
  shows "2 ^ 52 \<le> (rat_of_int n / rat_of_int d) * power_int 2 (- binade n d)"
    and "(rat_of_int n / rat_of_int d) * power_int 2 (- binade n d) < 2 ^ 53"
proof -
  let ?P = "power_int (2 :: rat)"
  let ?q = "bitlen n - bitlen d - 53"
  define x where "x = rat_of_int n / rat_of_int d"
  define e where "e = ?P (- ?q)"
  define e' where "e' = ?P (- (?q + 1))"
  have s: "2 ^ 52 < x * e" "x * e < 2 ^ 54"
    using binade_start [OF n d] by (simp_all only: x_def e_def)
  have "- (?q + 1) = - ?q + (- 1)" by simp
  then have "?P (- (?q + 1)) = ?P (- ?q + (- 1))" by (rule arg_cong)
  also have "\<dots> = ?P (- ?q) * ?P (- 1)" by (simp only: two_powi_add)
  also have "?P (- 1) = 1 / 2" by (simp add: power_int_minus)
  finally have e': "e' = e * (1 / 2)"
    by (simp only: e_def e'_def)
  have b: "binade n d = (if 2 ^ 53 \<le> x * e then ?q + 1 else ?q)"
    by (simp only: binade_def Let_def x_def e_def)
  have p: "?P (- binade n d) = (if 2 ^ 53 \<le> x * e then e' else e)"
    by (simp add: b e_def e'_def)
  show "2 ^ 52 \<le> (rat_of_int n / rat_of_int d) * ?P (- binade n d)"
    unfolding p x_def [symmetric] using s by (simp add: e')
  show "(rat_of_int n / rat_of_int d) * ?P (- binade n d) < 2 ^ 53"
    unfolding p x_def [symmetric] using s by (simp add: e')
qed

lemma nearest_double_error:
  assumes n: "0 < n" and d: "0 < d"
  shows "\<bar>nearest_double n d - rat_of_int n / rat_of_int d\<bar>
       \<le> (rat_of_int n / rat_of_int d) / 2 ^ 53 + 1 / 2 ^ 1075"
    and "0 \<le> nearest_double n d"
proof -
  let ?P = "power_int (2 :: rat)"
  define x where "x = rat_of_int n / rat_of_int d"
  define q where "q = max (binade n d) (- 1074)"
  define y where "y = x * ?P (- q)"
  define m where "m = round_half_even y"
  have v: "nearest_double n d = rat_of_int m * ?P q"
    by (simp add: nearest_double_def Let_def m_def y_def x_def q_def)
  have xpos: "0 < x"
    using n d by (simp add: x_def)
  have ypos: "0 \<le> y"
    using xpos by (simp add: y_def)
  have yx: "y * ?P q = x"
  proof -
    have "y * ?P q = x * (?P (- q) * ?P q)" by (simp add: y_def)
    then show ?thesis by (simp only: two_powi_cancel mult_1_right)
  qed
  have "rat_of_int m * ?P q - x = (rat_of_int m - y) * ?P q"
    by (simp add: yx [symmetric] algebra_simps)
  then have "\<bar>rat_of_int m * ?P q - x\<bar> = \<bar>rat_of_int m - y\<bar> * ?P q"
    by (simp add: abs_mult)
  also have "\<dots> \<le> (1 / 2) * ?P q"
    using round_half_even_error [of y] by (intro mult_right_mono) (simp_all add: m_def)
  also have "\<dots> \<le> x / 2 ^ 53 + 1 / 2 ^ 1075"
  proof (cases "- 1074 \<le> binade n d")
    case True
    then have q: "q = binade n d" by (simp add: q_def)
    have "2 ^ 52 * ?P q \<le> (x * ?P (- q)) * ?P q"
      using binade_range(1) [OF n d] by (intro mult_right_mono) (simp_all add: q x_def)
    also have "\<dots> = x"
      using yx by (simp add: y_def)
    finally have "2 ^ 52 * ?P q \<le> x" .
    then have "(1 / 2) * ?P q \<le> x / 2 ^ 53"
      by simp
    then show ?thesis
      by (simp add: add_increasing2)
  next
    case False
    then have q: "q = - 1074" by (simp add: q_def)
    have "(1 / 2) * ?P q = 1 / 2 ^ 1075"
      unfolding q by (simp add: power_int_minus_divide)
    then show ?thesis
      using xpos by simp
  qed
  finally show "\<bar>nearest_double n d - rat_of_int n / rat_of_int d\<bar>
       \<le> (rat_of_int n / rat_of_int d) / 2 ^ 53 + 1 / 2 ^ 1075"
    by (simp only: v x_def)
  have "0 \<le> m"
    using ypos by (simp add: m_def round_half_even_nonneg)
  then show "0 \<le> nearest_double n d"
    by (simp add: v)
qed

lemma int_true_divide_result:
  assumes b: "0 < b" and small: "\<bar>rat_of_int a\<bar> / rat_of_int b \<le> 2 ^ 1000"
  shows "\<exists>v. int_true_divide a b = Inr v
     \<and> \<bar>v - rat_of_int a / rat_of_int b\<bar> \<le> (\<bar>rat_of_int a\<bar> / rat_of_int b) / 2 ^ 53 + 1 / 2 ^ 1075
     \<and> (0 \<le> a \<longrightarrow> 0 \<le> v) \<and> (a \<le> 0 \<longrightarrow> v \<le> 0)"
proof (cases "a = 0")
  case True
  with b show ?thesis
    by (simp add: int_true_divide_def)
next
  case False
  define x where "x = \<bar>rat_of_int a\<bar> / rat_of_int b"
  define w where "w = nearest_double \<bar>a\<bar> \<bar>b\<bar>"
  have n: "0 < \<bar>a\<bar>" and d: "0 < \<bar>b\<bar>"
    using False b by simp_all
  have x: "rat_of_int \<bar>a\<bar> / rat_of_int \<bar>b\<bar> = x"
    using b by (simp add: x_def)
  have err: "\<bar>w - x\<bar> \<le> x / 2 ^ 53 + 1 / 2 ^ 1075" and w0: "0 \<le> w"
    using nearest_double_error [OF n d] by (simp_all only: x w_def)
  have x0: "0 \<le> x"
    using b by (simp add: x_def)
  have "w \<le> x + (x / 2 ^ 53 + 1 / 2 ^ 1075)"
    using err by (simp add: abs_le_iff)
  also have "\<dots> \<le> 2 ^ 1000 + (2 ^ 1000 + 1)"
  proof (intro add_mono)
    show "x \<le> 2 ^ 1000" using small by (simp add: x_def)
    have "x / 2 ^ 53 \<le> x" using x0 by (simp add: divide_le_eq)
    also have "x \<le> 2 ^ 1000" using small by (simp add: x_def)
    finally show "x / 2 ^ 53 \<le> 2 ^ 1000" .
    show "(1 :: rat) / 2 ^ 1075 \<le> 1" by simp
  qed
  also have "\<dots> < 2 ^ 1024" by simp
  finally have no: "\<not> 2 ^ 1024 \<le> w" by simp
  show ?thesis
  proof (cases "0 < a")
    case True
    have wa: "nearest_double a b = w"
      using True b by (simp add: w_def)
    have res: "int_true_divide a b = Inr w"
      using True b no by (simp add: int_true_divide_def Let_def wa)
    have "rat_of_int a / rat_of_int b = x"
      using True by (simp add: x_def)
    with True res err w0 show ?thesis
      by (simp add: x_def [symmetric])
  next
    case neg: False
    with False have a: "a < 0" by simp
    have wa: "nearest_double (- a) b = w"
      using a b by (simp add: w_def)
    have res: "int_true_divide a b = Inr (- w)"
      using a b no by (simp add: int_true_divide_def Let_def wa)
    have "rat_of_int a / rat_of_int b = - x"
      using a by (simp add: x_def)
    moreover have "\<bar>- w - - x\<bar> = \<bar>w - x\<bar>"
      by (simp add: abs_minus_commute)
    ultimately show ?thesis
      using a res err w0 by (simp add: x_def [symmetric])
  qed
qed

lemma win_quotient:
  assumes s: "s = 1000000000 \<or> s = - 1000000000" and ply: "1 \<le> ply"
  shows "\<exists>v. int_true_divide s ply = Inr v
     \<and> \<bar>v - rat_of_int s / rat_of_int ply\<bar>
         \<le> (1000000000 / rat_of_int ply) / 2 ^ 53 + 1 / 2 ^ 1075
     \<and> \<bar>v\<bar> \<le> 1000000000 / rat_of_int ply + 1
     \<and> (0 < s \<longrightarrow> 0 \<le> v) \<and> (s < 0 \<longrightarrow> v \<le> 0)"
proof -
  define x where "x = 1000000000 / rat_of_int ply"
  have p: "1 \<le> rat_of_int ply" using ply by simp
  have abs_s: "\<bar>rat_of_int s\<bar> = 1000000000" using s by auto
  have x0: "0 \<le> x" and x1: "x \<le> 1000000000"
    using p by (simp_all add: x_def divide_le_eq)
  have ax: "\<bar>rat_of_int s\<bar> / rat_of_int ply = x"
    by (simp add: abs_s x_def)
  have "x \<le> 2 ^ 1000"
    using x1 by simp
  then have small: "\<bar>rat_of_int s\<bar> / rat_of_int ply \<le> 2 ^ 1000"
    by (simp only: ax)
  have b: "0 < ply" using ply by simp
  from int_true_divide_result [OF b small] obtain v where
    v: "int_true_divide s ply = Inr v"
    and err: "\<bar>v - rat_of_int s / rat_of_int ply\<bar> \<le> x / 2 ^ 53 + 1 / 2 ^ 1075"
    and sign: "0 \<le> s \<longrightarrow> 0 \<le> v" "s \<le> 0 \<longrightarrow> v \<le> 0"
    unfolding ax by blast
  define r where "r = x / 2 ^ 53 + 1 / 2 ^ 1075"
  define t where "t = rat_of_int s / rat_of_int ply"
  have t: "\<bar>t\<bar> = x"
    using p by (simp add: abs_s x_def t_def)
  have vt: "\<bar>v - t\<bar> \<le> r"
    using err by (simp only: r_def t_def)
  have "\<bar>v\<bar> \<le> \<bar>v - t\<bar> + \<bar>t\<bar>"
    using abs_triangle_ineq [of "v - t" t] by simp
  also have "\<dots> \<le> r + x"
    using vt t by simp
  also have "r \<le> 1"
  proof -
    have "x / 2 ^ 53 \<le> 1000000000 / 2 ^ 53"
      using x1 by (simp add: divide_right_mono)
    then show ?thesis by (simp add: r_def)
  qed
  finally have "\<bar>v\<bar> \<le> x + 1" by simp
  with v err sign show ?thesis
    unfolding x_def by auto
qed

lemma win_quotient_at_ply_1:
  "int_true_divide 1000000000 1 = Inr 1000000000"
  "int_true_divide (- 1000000000) 1 = Inr (- 1000000000)"
  by code_simp+

lemma quotient_gap:
  fixes A P e d :: rat
  assumes "0 < P" and "2 * d * (P * (P + 1)) < A * (1 - e * (2 * P + 1))"
  shows "A / (P + 1) * (1 + e) + d < A / P * (1 - e) - d"
proof -
  have P1: "0 < P + 1" using assms(1) by simp
  have "(A / (P + 1) * (1 + e) + d) * (P * (P + 1)) = A * P * (1 + e) + d * (P * (P + 1))"
    using P1 by (simp add: field_simps)
  moreover have "(A / P * (1 - e) - d) * (P * (P + 1)) = A * (P + 1) * (1 - e) - d * (P * (P + 1))"
    using assms(1) by (simp add: field_simps)
  moreover have "A * P * (1 + e) + d * (P * (P + 1)) < A * (P + 1) * (1 - e) - d * (P * (P + 1))"
    using assms(2) by (simp add: algebra_simps)
  ultimately have "(A / (P + 1) * (1 + e) + d) * (P * (P + 1))
      < (A / P * (1 - e) - d) * (P * (P + 1))"
    by simp
  moreover have "0 < P * (P + 1)" using assms(1) P1 by simp
  ultimately show ?thesis
    by (simp only: mult_less_cancel_right_pos)
qed

lemma int_true_divide_minus:
  assumes b: "0 < b" and r: "int_true_divide a b = Inr v"
  shows "int_true_divide (- a) b = Inr (- v)"
proof -
  consider "a = 0" | "0 < a" | "a < 0" by linarith
  then show ?thesis
  proof cases
    case 1
    with assms show ?thesis
      by (simp add: int_true_divide_def)
  next
    case 2
    define w where "w = nearest_double a b"
    have "int_true_divide a b = (if 2 ^ 1024 \<le> w then Inl OverflowError else Inr w)"
      using 2 b by (simp add: int_true_divide_def Let_def w_def)
    with r have no: "\<not> 2 ^ 1024 \<le> w" and v: "v = w"
      by (simp_all split: if_splits)
    have "int_true_divide (- a) b = (if 2 ^ 1024 \<le> w then Inl OverflowError else Inr (- w))"
      using 2 b by (simp add: int_true_divide_def Let_def w_def)
    with no v show ?thesis by simp
  next
    case 3
    define w where "w = nearest_double (- a) b"
    have "int_true_divide a b = (if 2 ^ 1024 \<le> w then Inl OverflowError else Inr (- w))"
      using 3 b by (simp add: int_true_divide_def Let_def w_def)
    with r have no: "\<not> 2 ^ 1024 \<le> w" and v: "v = - w"
      by (simp_all split: if_splits)
    have "int_true_divide (- a) b = (if 2 ^ 1024 \<le> w then Inl OverflowError else Inr w)"
      using 3 b by (simp add: int_true_divide_def Let_def w_def)
    with no v show ?thesis by simp
  qed
qed

lemma nearer_win_strict:
  assumes p: "1 \<le> p" "p < 2 ^ 52" and q: "p < q"
    and vp: "int_true_divide 1000000000 p = Inr vp"
    and vq: "int_true_divide 1000000000 q = Inr vq"
  shows "vq < vp"
proof -
  define A :: rat where "A = 1000000000"
  define e :: rat where "e = 1 / 2 ^ 53"
  define d :: rat where "d = 1 / 2 ^ 1075"
  define P where "P = rat_of_int p"
  define Q where "Q = rat_of_int q"
  have P1: "1 \<le> P" and P2: "P \<le> 2 ^ 52 - 1" and PQ: "P + 1 \<le> Q"
  proof -
    show "1 \<le> P" using p(1) by (simp add: P_def)
    have "p \<le> 2 ^ 52 - 1" using p(2) by simp
    then have "rat_of_int p \<le> rat_of_int (2 ^ 52 - 1)" by (simp only: of_int_le_iff)
    then show "P \<le> 2 ^ 52 - 1" by (simp add: P_def)
    have "p + 1 \<le> q" using q by simp
    then have "rat_of_int (p + 1) \<le> rat_of_int q" by (simp only: of_int_le_iff)
    then show "P + 1 \<le> Q" by (simp add: P_def Q_def)
  qed
  have A0: "0 < A" by (simp add: A_def)
  from win_quotient [of 1000000000 p] p(1) vp
  have ep: "\<bar>vp - A / P\<bar> \<le> (A / P) * e + d"
    by (simp add: A_def P_def e_def d_def)
  have q1: "1 \<le> q" using p(1) q by simp
  from win_quotient [of 1000000000 q] q1 vq
  have eq: "\<bar>vq - A / Q\<bar> \<le> (A / Q) * e + d"
    by (simp add: A_def Q_def e_def d_def)
  have "A / Q \<le> A / (P + 1)"
    using PQ P1 A0 by (intro divide_left_mono) simp_all
  then have "A / Q * (1 + e) \<le> A / (P + 1) * (1 + e)"
    by (intro mult_right_mono) (simp_all add: e_def)
  moreover have "vq \<le> A / Q * (1 + e) + d"
  proof -
    have "vq - A / Q \<le> A / Q * e + d"
      using eq by (simp add: abs_le_iff)
    then have "vq \<le> A / Q * 1 + A / Q * e + d" by simp
    then show ?thesis by (simp only: distrib_left)
  qed
  ultimately have up: "vq \<le> A / (P + 1) * (1 + e) + d"
    by simp
  have low: "A / P * (1 - e) - d \<le> vp"
  proof -
    have "A / P - vp \<le> A / P * e + d"
      using ep by (simp add: abs_le_iff)
    then have "A / P * 1 - A / P * e - d \<le> vp" by simp
    then show ?thesis by (simp only: right_diff_distrib)
  qed
  have "P * (P + 1) \<le> 2 ^ 52 * 2 ^ 52"
    using P1 P2 by (intro mult_mono) simp_all
  then have "2 * d * (P * (P + 1)) \<le> 2 * d * (2 ^ 52 * 2 ^ 52)"
    by (intro mult_left_mono) (simp_all add: d_def)
  also have "\<dots> < A * e"
    by (simp add: d_def A_def e_def)
  also have "A * e \<le> A * (1 - e * (2 * P + 1))"
  proof (intro mult_left_mono)
    have "e * (2 * P + 1) \<le> e * (2 * (2 ^ 52 - 1) + 1)"
      using P2 by (intro mult_left_mono) (simp_all add: e_def)
    also have "\<dots> = 1 - e" by (simp add: e_def)
    finally show "e \<le> 1 - e * (2 * P + 1)" by simp
    show "0 \<le> A" using A0 by simp
  qed
  finally have "2 * d * (P * (P + 1)) < A * (1 - e * (2 * P + 1))" .
  then have "A / (P + 1) * (1 + e) + d < A / P * (1 - e) - d"
    using P1 by (intro quotient_gap) simp_all
  with up low show ?thesis by simp
qed

lemma nearer_loss_strict:
  assumes p: "1 \<le> p" "p < 2 ^ 52" and q: "p < q"
    and vp: "int_true_divide (- 1000000000) p = Inr vp"
    and vq: "int_true_divide (- 1000000000) q = Inr vq"
  shows "vp < vq"
proof -
  have "int_true_divide (- (- 1000000000)) p = Inr (- vp)"
    using p(1) vp by (intro int_true_divide_minus) simp_all
  moreover have "int_true_divide (- (- 1000000000)) q = Inr (- vq)"
    using p(1) q vq by (intro int_true_divide_minus) simp_all
  ultimately have "- vq < - vp"
    using nearer_win_strict [OF p q, of "- vp" "- vq"] by simp
  then show ?thesis by simp
qed

section \<open>The win check and the depth cutoff of \<open>_minimax\<close>\<close>

lemma quartet_score_range:
  "quartet_score self a b c d \<in> {(0, False), (1000000000, True), (- 1000000000, True),
     (1, False), (- 1, False), (10, False), (- 10, False), (100, False), (- 100, False)}"
  by (simp add: quartet_score_def Let_def)

lemma quartet_score_win:
  "snd (quartet_score self a b c d) \<Longrightarrow>
   fst (quartet_score self a b c d) = 1000000000 \<or> fst (quartet_score self a b c d) = - 1000000000"
  using quartet_score_range [of self a b c d] by auto

lemma scan_Inl: "scan results score = Inl win \<Longrightarrow> win \<in> set results \<and> snd win"
  by (auto simp add: scan_def find_Some_iff split: option.splits)

lemma board_state_score_win:
  assumes "snd (board_state_score self rack shape)"
  shows "fst (board_state_score self rack shape) = 1000000000
       \<or> fst (board_state_score self rack shape) = - 1000000000"
proof (cases "scan (map (quartet_result self) (enumerated_quartets rack shape)) 0")
  case (Inl win)
  then have "win \<in> set (map (quartet_result self) (enumerated_quartets rack shape))" "snd win"
    using scan_Inl by blast+
  then obtain a b c d where "win = quartet_score self a b c d"
    by (auto simp add: quartet_result_def)
  with \<open>snd win\<close> have "fst win = 1000000000 \<or> fst win = - 1000000000"
    using quartet_score_win by blast
  with Inl show ?thesis
    by (simp add: board_state_score_scan)
next
  case (Inr score)
  with assms show ?thesis
    by (simp add: board_state_score_scan)
qed

lemma minimax_win:
  assumes "snd (board_state_score self rack shape)"
  shows "minimax (Suc depth) self rack shape ply
       = divide_by_ply (fst (board_state_score self rack shape)) ply rack"
  using assms by simp

text \<open>
  Claim C5, as amended: when \<open>_board_state_score\<close> reports a win with score \<open>s\<close>
  (1000000000 or - 1000000000), \<open>_minimax\<close> at a ply \<open>p\<close> of at least 1 returns the float
  \<open>s / p\<close>, the double nearest to the quotient: it differs from the quotient by at most
  the fraction \<open>1 / 2 ^ 53\<close> of it plus \<open>1 / 2 ^ 1075\<close>. When \<open>p\<close> is below \<open>2 ^ 52\<close>, a
  win found at ply \<open>p\<close> is worth strictly more than the same win at any larger ply, and a
  loss found at ply \<open>p\<close> is strictly more negative.
\<close>

theorem minimax_win_float_quotient:
  assumes win: "snd (board_state_score self rack shape)" and p: "1 \<le> p"
  shows "(fst (board_state_score self rack shape) = 1000000000
          \<or> fst (board_state_score self rack shape) = - 1000000000)
       \<and> (\<exists>vp. minimax (Suc depth) self rack shape p = Inr (vp, rack)
             \<and> int_true_divide (fst (board_state_score self rack shape)) p = Inr vp
             \<and> \<bar>vp - rat_of_int (fst (board_state_score self rack shape)) / rat_of_int p\<bar>
                 \<le> (1000000000 / rat_of_int p) / 2 ^ 53 + 1 / 2 ^ 1075
             \<and> (\<forall>q vq. p < 2 ^ 52 \<and> p < q
                    \<and> minimax (Suc depth) self rack shape q = Inr (vq, rack)
                  \<longrightarrow> (if fst (board_state_score self rack shape) = 1000000000
                       then vq < vp else vp < vq)))"
proof -
  let ?s = "fst (board_state_score self rack shape)"
  have s: "?s = 1000000000 \<or> ?s = - 1000000000"
    using win by (rule board_state_score_win)
  from win_quotient [OF s p] obtain vp where
    vp: "int_true_divide ?s p = Inr vp"
    and err: "\<bar>vp - rat_of_int ?s / rat_of_int p\<bar>
        \<le> (1000000000 / rat_of_int p) / 2 ^ 53 + 1 / 2 ^ 1075"
    by blast
  have mp: "minimax (Suc depth) self rack shape p = Inr (vp, rack)"
    by (simp only: minimax_win [OF win] divide_by_ply_def vp sum.case)
  have strict: "if ?s = 1000000000 then vq < vp else vp < vq"
    if q: "p < 2 ^ 52" "p < q" "minimax (Suc depth) self rack shape q = Inr (vq, rack)"
    for q vq
  proof -
    have "divide_by_ply ?s q rack = Inr (vq, rack)"
      using q(3) by (simp only: minimax_win [OF win])
    then have vq: "int_true_divide ?s q = Inr vq"
      by (simp add: divide_by_ply_def split: sum.splits)
    show ?thesis
    proof (cases "?s = 1000000000")
      case True
      then show ?thesis
        using nearer_win_strict [OF p q(1,2), of vp vq] vp vq by simp
    next
      case False
      with s have "?s = - 1000000000" by simp
      then show ?thesis
        using nearer_loss_strict [OF p q(1,2), of vp vq] vp vq by simp
    qed
  qed
  from s mp vp err strict show ?thesis
    by blast
qed

theorem minimax_win_float_quotient_witness:
  "minimax 1 \<lparr>ID = 1, MAX_PLIES = 5\<rparr> [[1, 1, 1, 1], [2, 2, 2, 0]] (2, 4) 1
     = Inr (1000000000, [[1, 1, 1, 1], [2, 2, 2, 0]])
   \<and> minimax 1 \<lparr>ID = 1, MAX_PLIES = 5\<rparr> [[1, 1, 1, 1], [2, 2, 2, 0]] (2, 4) 3
     = Inr (5592405333333333 / 16777216, [[1, 1, 1, 1], [2, 2, 2, 0]])
   \<and> (5592405333333333 / 16777216 :: rat) < 1000000000"
proof -
  let ?self = "\<lparr>ID = 1, MAX_PLIES = 5\<rparr>"
  let ?rack = "[[1, 1, 1, 1], [2, 2, 2, 0]] :: rack"
  have b: "board_state_score ?self ?rack (2, 4) = (1000000000, True)"
    by code_simp
  have m1: "minimax (Suc 0) ?self ?rack (2, 4) 1 = Inr (1000000000, ?rack)"
    by code_simp
  have m3: "minimax (Suc 0) ?self ?rack (2, 4) 3 = Inr (5592405333333333 / 16777216, ?rack)"
    by code_simp
  from minimax_win_float_quotient [of ?self ?rack "(2, 4)" 1 0] obtain vp where
    vp: "minimax (Suc 0) ?self ?rack (2, 4) 1 = Inr (vp, ?rack)"
    and strict: "\<forall>q vq. (1 :: int) < 2 ^ 52 \<and> 1 < q
        \<and> minimax (Suc 0) ?self ?rack (2, 4) q = Inr (vq, ?rack)
        \<longrightarrow> (if fst (board_state_score ?self ?rack (2, 4)) = 1000000000
             then vq < vp else vp < vq)"
    by (auto simp add: b)
  from vp m1 have "vp = 1000000000" by simp
  moreover have "5592405333333333 / 16777216 < vp"
    using strict [rule_format, of 3 "5592405333333333 / 16777216"] m3
    by (simp add: b del: minimax.simps)
  ultimately show ?thesis
    using m1 m3 by simp
qed

text \<open>
  Claim C5 as stated fails for large plies, where neighbouring quotients round to the
  same double: on a board won by the engine, \<open>_minimax\<close> returns the same value at the
  plies \<open>10 ^ 16\<close> and \<open>10 ^ 16 + 1\<close>.
\<close>

theorem minimax_win_not_strict_counterexample:
  "snd (board_state_score \<lparr>ID = 1, MAX_PLIES = 5\<rparr> [[1, 1, 1, 1], [2, 2, 2, 0]] (2, 4))
   \<and> minimax 1 \<lparr>ID = 1, MAX_PLIES = 5\<rparr> [[1, 1, 1, 1], [2, 2, 2, 0]] (2, 4) 10000000000000000
     = Inr (944473296573929 / 9444732965739290427392, [[1, 1, 1, 1], [2, 2, 2, 0]])
   \<and> minimax 1 \<lparr>ID = 1, MAX_PLIES = 5\<rparr> [[1, 1, 1, 1], [2, 2, 2, 0]] (2, 4) 10000000000000001
     = Inr (944473296573929 / 9444732965739290427392, [[1, 1, 1, 1], [2, 2, 2, 0]])"
  by code_simp

text \<open>
  Claim C8: at the depth cutoff (the ply equals \<open>MAX_PLIES\<close>, the board is neither a win
  nor full) \<open>_minimax\<close> returns the static heuristic; the second win check of that branch
  never fires, so \<open>_minimax\<close> equals the variant whose cutoff branch returns the raw
  aggregate score unconditionally, on every input.
\<close>

theorem minimax_cutoff_recheck_dead:
  "(\<not> snd (board_state_score self rack shape) \<and> \<not> rack_full rack shape \<and> ply = MAX_PLIES self
      \<longrightarrow> minimax (Suc depth) self rack shape ply
           = Inr (rat_of_int (fst (board_state_score self rack shape)), rack))
   \<and> minimax depth self rack shape ply = minimax_raw_cutoff depth self rack shape ply"
proof
  show "\<not> snd (board_state_score self rack shape) \<and> \<not> rack_full rack shape \<and> ply = MAX_PLIES self
      \<longrightarrow> minimax (Suc depth) self rack shape ply
           = Inr (rat_of_int (fst (board_state_score self rack shape)), rack)"
    by simp
next
  have "minimax depth self = minimax_raw_cutoff depth self"
  proof (induction depth)
    case 0
    show ?case by (intro ext) simp
  next
    case (Suc depth)
    show ?case
      by (intro ext) (simp add: Suc.IH Let_def)
  qed
  then show "minimax depth self rack shape ply = minimax_raw_cutoff depth self rack shape ply"
    by simp
qed

theorem minimax_cutoff_recheck_dead_witness:
  "minimax 1 \<lparr>ID = 1, MAX_PLIES = 1\<rparr> [[1, 1, 1, 0], [2, 2, 0, 0]] (2, 4) 1
     = Inr (90, [[1, 1, 1, 0], [2, 2, 0, 0]])
   \<and> minimax_raw_cutoff 1 \<lparr>ID = 1, MAX_PLIES = 1\<rparr> [[1, 1, 1, 0], [2, 2, 0, 0]] (2, 4) 1
     = Inr (90, [[1, 1, 1, 0], [2, 2, 0, 0]])"
proof -
  have b: "board_state_score \<lparr>ID = 1, MAX_PLIES = 1\<rparr> [[1, 1, 1, 0], [2, 2, 0, 0]] (2, 4)
     = (90, False)"
    by code_simp
  have f: "\<not> rack_full [[1, 1, 1, 0], [2, 2, 0, 0]] (2, 4)"
    by code_simp
  show ?thesis
    using minimax_cutoff_recheck_dead [of "\<lparr>ID = 1, MAX_PLIES = 1\<rparr>"
        "[[1, 1, 1, 0], [2, 2, 0, 0]]" "(2, 4)" 1 0]
      minimax_cutoff_recheck_dead [of "\<lparr>ID = 1, MAX_PLIES = 1\<rparr>"
        "[[1, 1, 1, 0], [2, 2, 0, 0]]" "(2, 4)" 1 1]
    by (simp add: b f)
qed

section \<open>Making and unmaking a move\<close>

lemma height_le: "height col \<le> length col"
  by (simp add: height_def length_takeWhile_le)

lemma below_height: "k < height col \<Longrightarrow> col ! k \<noteq> 0"
proof -
  assume k: "k < height col"
  then have "takeWhile (\<lambda>v. v \<noteq> 0) col ! k \<in> set (takeWhile (\<lambda>v. v \<noteq> 0) col)"
    by (simp add: height_def)
  then have "takeWhile (\<lambda>v. v \<noteq> 0) col ! k \<noteq> 0"
    by (rule set_takeWhileD [THEN conjunct2])
  with k show ?thesis
    by (simp add: height_def takeWhile_nth)
qed

lemma at_height: "height col < length col \<Longrightarrow> col ! height col = 0"
  using nth_length_takeWhile [of "\<lambda>v. v \<noteq> 0" col] by (simp add: height_def)

lemma length_dropWhile: "length (dropWhile (\<lambda>v. v \<noteq> 0) col) = length col - height col"
proof -
  have "length (takeWhile (\<lambda>v. v \<noteq> (0::int)) col) + length (dropWhile (\<lambda>v. v \<noteq> 0) col)
      = length col"
    by (simp only: length_append [symmetric] takeWhile_dropWhile_id)
  then show ?thesis
    unfolding height_def by linarith
qed

lemma nth_dropWhile:
  assumes "height col \<le> k"
  shows "col ! k = dropWhile (\<lambda>v. v \<noteq> 0) col ! (k - height col)"
proof -
  have "col ! k = (takeWhile (\<lambda>v. v \<noteq> 0) col @ dropWhile (\<lambda>v. v \<noteq> 0) col) ! k"
    by (simp only: takeWhile_dropWhile_id)
  also have "\<dots> = (if k < height col then takeWhile (\<lambda>v. v \<noteq> 0) col ! k
                      else dropWhile (\<lambda>v. v \<noteq> 0) col ! (k - height col))"
    unfolding height_def by (rule nth_append)
  also have "\<dots> = dropWhile (\<lambda>v. v \<noteq> 0) col ! (k - height col)"
    using assms by simp
  finally show ?thesis .
qed

lemma above_height:
  assumes "gravity col" and "height col \<le> k" and "k < length col"
  shows "col ! k = 0"
proof -
  have "k - height col < length (dropWhile (\<lambda>v. v \<noteq> 0) col)"
    using assms(2,3) by (simp add: length_dropWhile)
  then have "dropWhile (\<lambda>v. v \<noteq> 0) col ! (k - height col) = 0"
    using assms(1) by (simp add: gravity_def list_all_length)
  then show ?thesis
    using assms(2) by (simp add: nth_dropWhile)
qed

lemma height_less:
  assumes "col ! k = 0" and "k < length col"
  shows "height col \<le> k"
proof (rule ccontr)
  assume "\<not> height col \<le> k"
  then have "k < height col" by simp
  then have "col ! k \<noteq> 0" by (rule below_height)
  with assms show False by simp
qed

lemma gravityI:
  assumes "\<And>k. h \<le> k \<Longrightarrow> k < length col \<Longrightarrow> col ! k = 0"
    and "\<And>k. k < h \<Longrightarrow> col ! k \<noteq> 0" and "h \<le> length col"
  shows "gravity col \<and> height col = h"
proof -
  have h: "height col = h"
  proof (rule antisym)
    show "height col \<le> h"
    proof (cases "h < length col")
      case True
      then show ?thesis using assms(1) [of h] height_less by simp
    next
      case False
      with assms(3) show ?thesis using height_le [of col] by simp
    qed
    show "h \<le> height col"
      unfolding height_def
      by (rule length_takeWhile_less_P_nth) (use assms in auto)
  qed
  have "gravity col"
    unfolding gravity_def list_all_length
  proof (intro allI impI)
    fix n
    assume n: "n < length (dropWhile (\<lambda>v. v \<noteq> 0) col)"
    have len: "length (dropWhile (\<lambda>v. v \<noteq> 0) col) = length col - h"
      using h by (simp add: length_dropWhile)
    have "dropWhile (\<lambda>v. v \<noteq> 0) col ! n = col ! (n + h)"
      using h nth_dropWhile [of col "n + h"] by simp
    also have "\<dots> = 0"
      using n len by (intro assms(1)) simp_all
    finally show "dropWhile (\<lambda>v. v \<noteq> 0) col ! n = 0" .
  qed
  with h show ?thesis by simp
qed

declare make_move_loop.simps [simp del]

lemma make_move_loop_finds:
  assumes "i \<le> h" and "h < snd shape" and "rack ! col ! h = 0"
    and "\<And>k. i \<le> k \<Longrightarrow> k < h \<Longrightarrow> rack ! col ! k \<noteq> 0"
  shows "make_move_loop rack col shape player i = (True, set_cell rack col h player)"
  using assms
proof (induction "h - i" arbitrary: i)
  case 0
  then have "i = h" by simp
  with "0.prems" show ?case
    by (subst make_move_loop.simps) simp
next
  case (Suc n)
  then have i: "i < h" by simp
  with Suc.prems have nz: "rack ! col ! i \<noteq> 0" by simp
  have "make_move_loop rack col shape player (i + 1) = (True, set_cell rack col h player)"
  proof (rule Suc.hyps(1))
    show "n = h - (i + 1)" using Suc.hyps(2) by simp
    show "i + 1 \<le> h" using i by simp
    show "h < snd shape" by (rule Suc.prems(2))
    show "rack ! col ! h = 0" by (rule Suc.prems(3))
    show "\<And>k. i + 1 \<le> k \<Longrightarrow> k < h \<Longrightarrow> rack ! col ! k \<noteq> 0"
      using Suc.prems(4) by simp
  qed
  with i nz Suc.prems(2) show ?case
    by (subst make_move_loop.simps) simp
qed

lemma unmake_move_loop_finds:
  assumes "h < n" and "rack ! col ! h \<noteq> 0"
    and "\<And>k. h < k \<Longrightarrow> k < n \<Longrightarrow> rack ! col ! k = 0"
  shows "unmake_move_loop rack col n = (True, set_cell rack col h 0)"
  using assms
proof (induction n)
  case 0
  then show ?case by simp
next
  case (Suc n)
  show ?case
  proof (cases "h = n")
    case True
    with Suc.prems show ?thesis by simp
  next
    case False
    with Suc.prems have "h < n" by simp
    moreover from Suc.prems False have "rack ! col ! n = 0" by simp
    ultimately show ?thesis
      using Suc by simp
  qed
qed

lemma make_move_column:
  assumes "length (rack ! col) = snd shape" and "0 < snd shape"
    and "rack ! col ! (snd shape - 1) = 0"
  shows "make_move rack col shape player = (True, drop_disc rack col player)"
proof -
  have h: "height (rack ! col) < snd shape"
    using height_less [of "rack ! col" "snd shape - 1"] assms by simp
  have "make_move_loop rack col shape player 0
      = (True, set_cell rack col (height (rack ! col)) player)"
  proof (rule make_move_loop_finds)
    show "0 \<le> height (rack ! col)" by simp
    show "height (rack ! col) < snd shape" by (rule h)
    show "rack ! col ! height (rack ! col) = 0"
      using h assms(1) by (simp add: at_height)
    show "\<And>k. 0 \<le> k \<Longrightarrow> k < height (rack ! col) \<Longrightarrow> rack ! col ! k \<noteq> 0"
      by (rule below_height)
  qed
  with assms(3) show ?thesis
    by (simp add: make_move_def drop_disc_def)
qed

lemma unmake_move_column:
  assumes "col < length rack" and "length (rack ! col) = snd shape" and "0 < snd shape"
    and "rack ! col ! (snd shape - 1) = 0" and "gravity (rack ! col)" and "player \<noteq> 0"
  shows "unmake_move (drop_disc rack col player) col shape = (True, rack)"
proof -
  let ?h = "height (rack ! col)"
  let ?rack1 = "drop_disc rack col player"
  have h: "?h < snd shape"
    using height_less [of "rack ! col" "snd shape - 1"] assms by simp
  have col1: "?rack1 ! col = (rack ! col)[?h := player]"
    using assms(1) by (simp add: drop_disc_def set_cell_def)
  have "unmake_move_loop ?rack1 col (snd shape) = (True, set_cell ?rack1 col ?h 0)"
  proof (rule unmake_move_loop_finds)
    show "?h < snd shape" by (rule h)
    show "?rack1 ! col ! ?h \<noteq> 0"
      using h assms(2,6) by (simp add: col1)
    show "\<And>k. ?h < k \<Longrightarrow> k < snd shape \<Longrightarrow> ?rack1 ! col ! k = 0"
      using assms(2,5) by (simp add: col1 above_height)
  qed
  moreover have "set_cell ?rack1 col ?h 0 = rack"
  proof -
    have "(rack ! col)[?h := 0] = rack ! col"
      using h assms(2) at_height [of "rack ! col"] by (simp add: list_update_same_conv)
    then show ?thesis
      using assms(1) by (simp add: set_cell_def drop_disc_def)
  qed
  ultimately show ?thesis
    by (simp add: unmake_move_def)
qed

text \<open>
  Claim C1: for every column in range and every board whose column is gravity-consistent
  and not full (its top cell is empty), \<open>_make_move\<close> on that column for a player
  (a non-zero id) succeeds, and \<open>_unmake_move\<close> on the same column right after it
  restores the board to its state before the move.
\<close>

theorem make_then_unmake_restores:
  assumes "col < length rack" and "length (rack ! col) = snd shape" and "0 < snd shape"
    and "rack ! col ! (snd shape - 1) = 0" and "gravity (rack ! col)" and "player \<noteq> 0"
  shows "fst (make_move rack col shape player)
       \<and> unmake_move (snd (make_move rack col shape player)) col shape = (True, rack)"
  using assms by (simp add: make_move_column unmake_move_column)

theorem make_then_unmake_restores_witness:
  "fst (make_move [[1, 2, 0], [0, 0, 0]] 0 (2, 3) 2)
   \<and> unmake_move (snd (make_move [[1, 2, 0], [0, 0, 0]] 0 (2, 3) 2)) 0 (2, 3)
       = (True, [[1, 2, 0], [0, 0, 0]])"
  using make_then_unmake_restores [of 0 "[[1, 2, 0], [0, 0, 0]]" "(2, 3)" 2]
  by (simp add: gravity_def)

lemma floating_disc_not_restored:
  "unmake_move (snd (make_move [[0, 1, 0]] 0 (1, 3) 2)) 0 (1, 3) = (True, [[2, 0, 0]])"
  by (simp add: make_move_def unmake_move_def make_move_loop.simps set_cell_def numeral_3_eq_3)

section \<open>The search on valid boards\<close>

lemma valid_board_column:
  assumes "valid_board rack shape" and "c < fst shape"
  shows "c < length rack" and "length (rack ! c) = snd shape" and "gravity (rack ! c)"
    and "0 < snd shape"
  using assms by (simp_all add: valid_board_def list_all_length)

lemma make_move_valid:
  assumes "valid_board rack shape" and "c < fst shape"
  shows "make_move rack c shape player
       = (if legal rack shape c then (True, drop_disc rack c player) else (False, rack))"
proof (cases "legal rack shape c")
  case True
  then show ?thesis
    using valid_board_column [OF assms] by (simp add: make_move_column legal_def)
next
  case False
  then show ?thesis
    by (simp add: make_move_def legal_def)
qed

lemma unmake_move_valid:
  assumes "valid_board rack shape" and "c < fst shape" and "legal rack shape c"
    and "player \<noteq> 0"
  shows "unmake_move (drop_disc rack c player) c shape = (True, rack)"
  using valid_board_column [OF assms(1,2)] assms(3,4)
  by (simp add: unmake_move_column legal_def)

lemma height_legal:
  assumes "valid_board rack shape" and "c < fst shape" and "legal rack shape c"
  shows "height (rack ! c) < snd shape"
  using height_less [of "rack ! c" "snd shape - 1"] valid_board_column [OF assms(1,2)] assms(3)
  by (simp add: legal_def)

lemma dropped_column:
  assumes "length col = n" and "gravity col" and "height col < n" and "player \<noteq> 0"
  shows "gravity (col[height col := player]) \<and> height (col[height col := player]) = Suc (height col)"
proof (rule gravityI)
  fix k
  assume "Suc (height col) \<le> k" and "k < length (col[height col := player])"
  then show "col[height col := player] ! k = 0"
    using assms(2) by (simp add: above_height)
next
  fix k
  assume "k < Suc (height col)"
  then show "col[height col := player] ! k \<noteq> 0"
    using assms(1,3,4) by (cases "k = height col") (simp_all add: below_height)
next
  show "Suc (height col) \<le> length (col[height col := player])"
    using assms(1,3) by simp
qed

lemma drop_disc_nth:
  assumes "c < length rack"
  shows "drop_disc rack c player ! c' =
    (if c' = c then (rack ! c)[height (rack ! c) := player] else rack ! c')"
  using assms by (simp add: drop_disc_def set_cell_def)

lemma valid_drop_disc:
  assumes "valid_board rack shape" and "c < fst shape" and "legal rack shape c"
    and "player \<noteq> 0"
  shows "valid_board (drop_disc rack c player) shape"
proof -
  note col = valid_board_column [OF assms(1,2)]
  have d: "gravity ((rack ! c)[height (rack ! c) := player])"
    using dropped_column [OF col(2,3) height_legal [OF assms(1-3)] assms(4)] by simp
  have len: "length (drop_disc rack c player) = fst shape"
    using assms(1) by (simp add: drop_disc_def set_cell_def valid_board_def)
  have "\<And>c'. c' < fst shape \<Longrightarrow> length (drop_disc rack c player ! c') = snd shape
      \<and> gravity (drop_disc rack c player ! c')"
    using col(1,2) d valid_board_column [OF assms(1)] by (simp add: drop_disc_nth)
  with len assms(1) show ?thesis
    by (simp add: valid_board_def list_all_length)
qed

lemma free_cells_drop_disc:
  assumes "valid_board rack shape" and "c < fst shape" and "legal rack shape c"
    and "player \<noteq> 0"
  shows "Suc (free_cells (drop_disc rack c player)) = free_cells rack"
proof -
  note col = valid_board_column [OF assms(1,2)]
  note h = height_legal [OF assms(1-3)]
  let ?f = "\<lambda>col. length col - height col"
  have new: "?f ((rack ! c)[height (rack ! c) := player]) = snd shape - Suc (height (rack ! c))"
    using dropped_column [OF col(2,3) h assms(4)] col(2) by simp
  have "map ?f (drop_disc rack c player) = (map ?f rack)[c := snd shape - Suc (height (rack ! c))]"
    using new by (simp add: drop_disc_def set_cell_def map_update)
  then have "free_cells (drop_disc rack c player)
      = sum_list (map ?f rack) + (snd shape - Suc (height (rack ! c))) - map ?f rack ! c"
    using col(1) by (simp add: free_cells_def sum_list_update)
  moreover have "map ?f rack ! c = snd shape - height (rack ! c)"
    using col(1,2) by simp
  moreover have "snd shape - height (rack ! c) \<le> sum_list (map ?f rack)"
  proof -
    have "map ?f rack ! c \<in> set (map ?f rack)"
      using col(1) by (intro nth_mem) simp
    then have "map ?f rack ! c \<le> sum_list (map ?f rack)"
      by (intro member_le_sum_list) simp_all
    then show ?thesis
      using col(1,2) by simp
  qed
  ultimately show ?thesis
    using h by (simp add: free_cells_def)
qed

lemma rack_full_loop_iff:
  "rack_full_loop rack shape cs = (\<forall>c \<in> set cs. \<not> legal rack shape c)"
  by (induction cs) (simp_all add: legal_def)

lemma rack_full_iff: "rack_full rack shape = (legal_from rack shape 0 = [])"
  by (auto simp add: rack_full_def rack_full_loop_iff legal_from_def filter_empty_conv)

lemma legal_from_step:
  assumes "i < fst shape"
  shows "legal_from rack shape i =
    (if legal rack shape i then i # legal_from rack shape (i + 1) else legal_from rack shape (i + 1))"
  using assms by (simp add: legal_from_def upt_conv_Cons)

lemma legal_from_done: "\<not> i < fst shape \<Longrightarrow> legal_from rack shape i = []"
  by (simp add: legal_from_def)

declare minimax_loop.simps [simp del]
declare pick_move_loop.simps [simp del]

lemma fold_high_score:
  "fold (\<lambda>c h. if score c > h then score c else h) cs (high :: rat)
     = Max (set (high # map score cs))"
proof -
  have "fold (\<lambda>c h. if score c > h then score c else h) cs high = fold max (map score cs) high"
    by (induction cs arbitrary: high) (simp_all add: max_def not_less)
  then show ?thesis
    by (simp only: Max.set_eq_fold)
qed

lemma fold_low_score:
  "fold (\<lambda>c l. if score c < l then score c else l) cs (low :: rat)
     = Min (set (low # map score cs))"
proof -
  have "fold (\<lambda>c l. if score c < l then score c else l) cs low = fold min (map score cs) low"
    by (induction cs arbitrary: low) (simp_all add: min_def not_less)
  then show ?thesis
    by (simp only: Min.set_eq_fold)
qed

lemma Max_above_start:
  assumes "cs \<noteq> []" and "\<And>c. c \<in> set cs \<Longrightarrow> (high :: rat) < score c"
  shows "Max (set (high # map score cs)) = Max (score ` set cs)"
proof -
  have ne: "score ` set cs \<noteq> {}" using assms(1) by simp
  have "high \<le> Max (score ` set cs)"
  proof -
    from assms(1) obtain c where c: "c \<in> set cs" by (cases cs) auto
    then have "high < score c" by (rule assms(2))
    also have "score c \<le> Max (score ` set cs)" using c by simp
    finally show ?thesis by simp
  qed
  then show ?thesis
    using ne by (simp add: max_absorb2)
qed

lemma Min_below_start:
  assumes "cs \<noteq> []" and "\<And>c. c \<in> set cs \<Longrightarrow> score c < (low :: rat)"
  shows "Min (set (low # map score cs)) = Min (score ` set cs)"
proof -
  have ne: "score ` set cs \<noteq> {}" using assms(1) by simp
  have "Min (score ` set cs) \<le> low"
  proof -
    from assms(1) obtain c where c: "c \<in> set cs" by (cases cs) auto
    have "Min (score ` set cs) \<le> score c" using c by simp
    also have "score c < low" using c by (rule assms(2))
    finally show ?thesis by simp
  qed
  then show ?thesis
    using ne by (simp add: min_absorb2)
qed

lemma legal_from_set: "c \<in> set (legal_from rack shape i) \<Longrightarrow> c < fst shape \<and> legal rack shape c"
  by (simp add: legal_from_def)

lemma minimax_loop_result:
  assumes v: "valid_board rack shape" and p: "player \<noteq> 0"
    and r: "\<And>c. c < fst shape \<Longrightarrow> legal rack shape c \<Longrightarrow>
          rec (drop_disc rack c player) shape (ply + 1) = Inr (score c, drop_disc rack c player)"
  shows "minimax_loop rec rack shape ply player i high low =
     Inr (fold (\<lambda>c h. if score c > h then score c else h) (legal_from rack shape i) high,
          fold (\<lambda>c l. if score c < l then score c else l) (legal_from rack shape i) low, rack)"
proof (induction "fst shape - i" arbitrary: i high low)
  case 0
  then have "\<not> i < fst shape" by simp
  then show ?case
    by (subst minimax_loop.simps) (simp add: legal_from_done)
next
  case (Suc n)
  then have i: "i < fst shape" by simp
  from Suc have n: "n = fst shape - Suc i" by simp
  note IH = Suc.hyps(1) [OF n]
  show ?case
  proof (cases "legal rack shape i")
    case True
    show ?thesis
      by (subst minimax_loop.simps)
        (simp add: i True make_move_valid [OF v i] r [OF i True] unmake_move_valid [OF v i True p]
          legal_from_step [OF i] IH)
  next
    case False
    show ?thesis
      by (subst minimax_loop.simps)
        (simp add: i False make_move_valid [OF v i] legal_from_step [OF i] IH)
  qed
qed

lemma mover_not_engine:
  "(ID self \<noteq> (if ply mod 2 = 1 then (if ID self = 1 then 2 else 1) else ID self))
     = (ply mod 2 = (1 :: int))"
  by simp

lemma minimax_Suc_recursive:
  assumes v: "valid_board rack shape"
    and pl: "player = (if ply mod 2 = 1 then (if ID self = 1 then 2 else 1) else ID self)"
    and p: "player \<noteq> 0"
    and nw: "\<not> snd (board_state_score self rack shape)"
    and nf: "\<not> rack_full rack shape"
    and nc: "ply \<noteq> MAX_PLIES self"
    and r: "\<And>c. c < fst shape \<Longrightarrow> legal rack shape c \<Longrightarrow>
          minimax depth self (drop_disc rack c player) shape (ply + 1)
            = Inr (score c, drop_disc rack c player)"
    and b: "\<And>c. c < fst shape \<Longrightarrow> legal rack shape c \<Longrightarrow>
          - 10000000000 < score c \<and> score c < 10000000000"
  shows "minimax (Suc depth) self rack shape ply =
     Inr (if ply mod 2 = 1 then Min (score ` set (legal_from rack shape 0))
          else Max (score ` set (legal_from rack shape 0)), rack)"
proof -
  let ?cs = "legal_from rack shape 0"
  have ne: "?cs \<noteq> []" using nf by (simp add: rack_full_iff)
  have hi: "fold (\<lambda>c h. if score c > h then score c else h) ?cs (- 10000000000)
      = Max (score ` set ?cs)"
    unfolding fold_high_score using ne b legal_from_set by (intro Max_above_start) blast+
  have lo: "fold (\<lambda>c l. if score c < l then score c else l) ?cs 10000000000
      = Min (score ` set ?cs)"
    unfolding fold_low_score using ne b legal_from_set by (intro Min_below_start) blast+
  have loop: "minimax_loop (minimax depth self) rack shape ply player 0
       (- 10000000000) 10000000000 = Inr (Max (score ` set ?cs), Min (score ` set ?cs), rack)"
    using minimax_loop_result [of rack shape player "minimax depth self" ply score 0, OF v p r]
    by (simp only: hi lo)
  have ne_player: "(ID self \<noteq> player) = (ply mod 2 = 1)"
    unfolding pl by (rule mover_not_engine)
  show ?thesis
    using nw nf nc loop ne_player by (simp add: pl [symmetric])
qed

lemma quartet_score_no_win:
  "\<not> snd (quartet_score self a b c d) \<Longrightarrow> \<bar>fst (quartet_score self a b c d)\<bar> \<le> 100"
  using quartet_score_range [of self a b c d] by auto

lemma quartet_result_no_win:
  "\<not> snd (quartet_result self q) \<Longrightarrow> \<bar>fst (quartet_result self q)\<bar> \<le> 100"
  by (cases q) (simp add: quartet_result_def quartet_score_no_win)

lemma scan_Inr:
  assumes "scan results score = Inr s"
  shows "s = score + sum_list (map fst results) \<and> (\<forall>x \<in> set results. \<not> snd x)"
proof (cases "List.find snd results")
  case None
  then have "\<forall>x \<in> set results. \<not> snd x"
    unfolding find_None_iff by blast
  with None assms show ?thesis
    by (simp add: scan_def)
next
  case (Some win)
  with assms show ?thesis
    by (simp add: scan_def)
qed

lemma sum_list_abs_bound:
  "(\<And>x. x \<in> set xs \<Longrightarrow> \<bar>f x\<bar> \<le> (b :: int)) \<Longrightarrow> \<bar>sum_list (map f xs)\<bar> \<le> b * int (length xs)"
proof (induction xs)
  case Nil
  show ?case by simp
next
  case (Cons x xs)
  have "\<bar>f x\<bar> \<le> b" using Cons.prems by simp
  moreover have "\<bar>sum_list (map f xs)\<bar> \<le> b * int (length xs)"
    using Cons by simp
  ultimately show ?case
    by (simp add: algebra_simps)
qed

lemma length_concat_map:
  "length (concat (map (\<lambda>i. map (g i) js) is)) = length is * length js"
  by (induction "is") simp_all

lemma length_enumerated_quartets:
  "length (enumerated_quartets rack shape) \<le> 4 * fst shape * snd shape"
proof -
  have 1: "length (vertical_quartets rack shape) \<le> fst shape * snd shape"
    by (simp add: vertical_quartets_def length_concat_map)
  have 2: "length (horizontal_quartets rack shape) \<le> fst shape * snd shape"
    by (simp add: horizontal_quartets_def length_concat_map)
  have 3: "length (rising_quartets rack shape) \<le> fst shape * snd shape"
    by (simp add: rising_quartets_def length_concat_map mult_le_mono)
  have 4: "length (falling_quartets rack shape) \<le> fst shape * snd shape"
    by (simp add: falling_quartets_def length_concat_map mult_le_mono)
  from 1 2 3 4 show ?thesis
    by (simp add: enumerated_quartets_def)
qed

lemma board_state_score_no_win:
  assumes "\<not> snd (board_state_score self rack shape)"
  shows "\<bar>rat_of_int (fst (board_state_score self rack shape))\<bar> \<le> heuristic_bound shape"
proof (cases "scan (map (quartet_result self) (enumerated_quartets rack shape)) 0")
  case (Inl win)
  then have "snd win" using scan_Inl by blast
  with Inl assms show ?thesis
    by (simp add: board_state_score_scan)
next
  case (Inr score)
  let ?qs = "enumerated_quartets rack shape"
  from Inr have s: "score = sum_list (map fst (map (quartet_result self) ?qs))"
    and nw: "\<forall>x \<in> set (map (quartet_result self) ?qs). \<not> snd x"
    using scan_Inr by fastforce+
  have "\<bar>sum_list (map fst (map (quartet_result self) ?qs))\<bar>
      \<le> 100 * int (length (map (quartet_result self) ?qs))"
  proof (rule sum_list_abs_bound)
    fix x
    assume x: "x \<in> set (map (quartet_result self) ?qs)"
    then obtain q where "x = quartet_result self q" by auto
    moreover have "\<not> snd x" using nw x by blast
    ultimately show "\<bar>fst x\<bar> \<le> 100"
      using quartet_result_no_win by blast
  qed
  then have "\<bar>score\<bar> \<le> 100 * int (length ?qs)"
    using s by simp
  also have "\<dots> \<le> 100 * int (4 * fst shape * snd shape)"
  proof -
    have "int (length ?qs) \<le> int (4 * fst shape * snd shape)"
      using length_enumerated_quartets [of rack shape] by (simp only: of_nat_le_iff)
    then show ?thesis by simp
  qed
  finally have "\<bar>score\<bar> \<le> int (400 * fst shape * snd shape)"
    by simp
  then have "rat_of_int \<bar>score\<bar> \<le> rat_of_int (int (400 * fst shape * snd shape))"
    by (simp only: of_int_le_iff)
  then have "\<bar>rat_of_int score\<bar> \<le> heuristic_bound shape"
    by (simp add: heuristic_bound_def)
  with Inr show ?thesis
    by (simp add: board_state_score_scan)
qed

lemma heuristic_bound_nonneg: "0 \<le> heuristic_bound shape"
  by (simp add: heuristic_bound_def)

lemma heuristic_bound_small:
  assumes "fst shape * snd shape < 25000000"
  shows "heuristic_bound shape < 10000000000"
proof -
  have "400 * fst shape * snd shape < 10000000000"
    using assms by simp
  then have "rat_of_nat (400 * fst shape * snd shape) < rat_of_nat 10000000000"
    by (simp only: of_nat_less_iff)
  then show ?thesis
    by (simp add: heuristic_bound_def)
qed

lemma win_share_bounds:
  assumes "1 \<le> (ply :: int)"
  shows "0 < 1000000000 / rat_of_int ply" and "1000000000 / rat_of_int ply \<le> 1000000000"
    and "1000000000 / rat_of_int (ply + 1) \<le> 1000000000 / rat_of_int ply"
proof -
  have p: "1 \<le> rat_of_int ply" using assms by simp
  then show "0 < 1000000000 / rat_of_int ply" by simp
  from p show "1000000000 / rat_of_int ply \<le> 1000000000"
    by (simp add: divide_le_eq)
  from p show "1000000000 / rat_of_int (ply + 1) \<le> 1000000000 / rat_of_int ply"
    by (simp add: frac_le)
qed

lemma minimax_ok:
  assumes "valid_board rack shape" and id: "ID self \<noteq> 0" and "1 \<le> ply"
    and "free_cells rack < depth" and small: "fst shape * snd shape < 25000000"
  shows "\<exists>s. minimax depth self rack shape ply = Inr (s, rack)
     \<and> \<bar>s\<bar> \<le> max (1000000000 / rat_of_int ply + 1) (heuristic_bound shape)
     \<and> (\<not> snd (board_state_score self rack shape)
          \<longrightarrow> \<bar>s\<bar> \<le> max (1000000000 / rat_of_int (ply + 1) + 1) (heuristic_bound shape))
     \<and> (snd (board_state_score self rack shape)
          \<longrightarrow> int_true_divide (fst (board_state_score self rack shape)) ply = Inr s)
     \<and> (\<not> snd (board_state_score self rack shape) \<and> rack_full rack shape \<longrightarrow> s = 0)
     \<and> (\<not> snd (board_state_score self rack shape) \<and> \<not> rack_full rack shape
            \<and> ply = MAX_PLIES self
          \<longrightarrow> s = rat_of_int (fst (board_state_score self rack shape)))"
  using assms(1,3,4)
proof (induction depth arbitrary: rack ply)
  case 0
  then show ?case by simp
next
  case (Suc depth)
  let ?H = "heuristic_bound shape"
  let ?B = "max (1000000000 / rat_of_int ply + 1) ?H"
  let ?B' = "max (1000000000 / rat_of_int (ply + 1) + 1) ?H"
  let ?bss = "board_state_score self rack shape"
  note v = Suc.prems(1)
  note ply = Suc.prems(2)
  have B'B: "?B' \<le> ?B"
    using win_share_bounds(3) [OF ply] by (simp add: max.coboundedI1)
  have B'0: "0 \<le> ?B'"
    using heuristic_bound_nonneg [of shape] by (simp add: max.coboundedI2)
  have B'small: "?B' < 10000000000"
  proof -
    have "1 \<le> ply + 1" using ply by simp
    then have "1000000000 / rat_of_int (ply + 1) \<le> 1000000000"
      by (rule win_share_bounds(2))
    then show ?thesis
      using heuristic_bound_small [OF small] by simp
  qed
  show ?case
  proof (cases "snd ?bss")
    case True
    have s: "fst ?bss = 1000000000 \<or> fst ?bss = - 1000000000"
      using True by (rule board_state_score_win)
    from win_quotient [OF s ply] obtain q where
      q: "int_true_divide (fst ?bss) ply = Inr q"
      and qb: "\<bar>q\<bar> \<le> 1000000000 / rat_of_int ply + 1"
      by blast
    have "minimax (Suc depth) self rack shape ply = Inr (q, rack)"
      using True by (simp add: divide_by_ply_def q)
    moreover have "\<bar>q\<bar> \<le> ?B"
      using qb by (simp add: max.coboundedI1)
    ultimately show ?thesis
      using True q by (intro exI [of _ q]) (simp del: minimax.simps)
  next
    case nw: False
    have H: "\<bar>rat_of_int (fst ?bss)\<bar> \<le> ?H"
      using nw by (rule board_state_score_no_win)
    show ?thesis
    proof (cases "rack_full rack shape")
      case True
      then have "minimax (Suc depth) self rack shape ply = Inr (0, rack)"
        using nw by simp
      then show ?thesis
        using B'0 B'B nw True by (intro exI [of _ 0]) (simp del: minimax.simps)
    next
      case nf: False
      show ?thesis
      proof (cases "ply = MAX_PLIES self")
        case True
        then have "minimax (Suc depth) self rack shape ply = Inr (rat_of_int (fst ?bss), rack)"
          using nw nf by simp
        moreover have "\<bar>rat_of_int (fst ?bss)\<bar> \<le> ?B'"
          using H by (simp add: max.coboundedI2)
        moreover have "\<bar>rat_of_int (fst ?bss)\<bar> \<le> ?B"
          using H by (simp add: max.coboundedI2)
        ultimately show ?thesis
          using nw nf by (intro exI [of _ "rat_of_int (fst ?bss)"]) (simp del: minimax.simps)
      next
        case nc: False
        define player where
          "player = (if ply mod 2 = 1 then (if ID self = 1 then 2 else 1) else ID self)"
        have p: "player \<noteq> 0"
          using id by (simp add: player_def)
        define score where
          "score c = fst (projr (minimax depth self (drop_disc rack c player) shape (ply + 1)))"
          for c
        have child: "minimax depth self (drop_disc rack c player) shape (ply + 1)
              = Inr (score c, drop_disc rack c player) \<and> \<bar>score c\<bar> \<le> ?B'"
          if c: "c < fst shape" "legal rack shape c" for c
        proof -
          have "valid_board (drop_disc rack c player) shape"
            using v c p by (rule valid_drop_disc)
          moreover have "free_cells (drop_disc rack c player) < depth"
            using free_cells_drop_disc [OF v c p] Suc.prems(3) by simp
          moreover have "1 \<le> ply + 1"
            using ply by simp
          ultimately obtain s where
            "minimax depth self (drop_disc rack c player) shape (ply + 1)
               = Inr (s, drop_disc rack c player)"
            and "\<bar>s\<bar> \<le> ?B'"
            using Suc.IH by blast
          then show ?thesis
            by (simp add: score_def)
        qed
        let ?cs = "legal_from rack shape 0"
        have val: "minimax (Suc depth) self rack shape ply
            = Inr (if ply mod 2 = 1 then Min (score ` set ?cs) else Max (score ` set ?cs), rack)"
        proof (rule minimax_Suc_recursive [OF v player_def p nw nf nc])
          fix c
          assume c: "c < fst shape" "legal rack shape c"
          show "minimax depth self (drop_disc rack c player) shape (ply + 1)
              = Inr (score c, drop_disc rack c player)"
            using child [OF c] by simp
          have "\<bar>score c\<bar> \<le> ?B'"
            using child [OF c] by simp
          then have "\<bar>score c\<bar> < 10000000000"
            using B'small by (rule le_less_trans)
          then show "- 10000000000 < score c \<and> score c < 10000000000"
            unfolding abs_less_iff by linarith
        qed
        have ne: "score ` set ?cs \<noteq> {}"
          using nf by (simp add: rack_full_iff)
        have all: "\<bar>x\<bar> \<le> ?B'" if "x \<in> score ` set ?cs" for x
          using that child legal_from_set by blast
        have "\<bar>Min (score ` set ?cs)\<bar> \<le> ?B'"
          using ne by (intro all Min_in) simp_all
        moreover have "\<bar>Max (score ` set ?cs)\<bar> \<le> ?B'"
          using ne by (intro all Max_in) simp_all
        ultimately have b': "\<bar>if ply mod 2 = 1 then Min (score ` set ?cs) else Max (score ` set ?cs)\<bar>
            \<le> ?B'"
          by simp
        then have "\<bar>if ply mod 2 = 1 then Min (score ` set ?cs) else Max (score ` set ?cs)\<bar>
            \<le> ?B"
          using B'B by (rule order_trans)
        with val b' nw nf nc show ?thesis
          by (intro exI [of _ "if ply mod 2 = 1 then Min (score ` set ?cs)
              else Max (score ` set ?cs)"]) (simp del: minimax.simps)
      qed
    qed
  qed
qed

lemma pick_move_loop_result:
  assumes v: "valid_board rack shape" and p: "ID self \<noteq> 0"
    and r: "\<And>c. c < fst shape \<Longrightarrow> legal rack shape c \<Longrightarrow>
          minimax depth self (drop_disc rack c (ID self)) shape 1
            = Inr (score c, drop_disc rack c (ID self))"
  shows "pick_move_loop depth self rack shape i best_move high_score =
     Inr (fst (fold (\<lambda>c bh. if score c > snd bh then (c, score c) else bh)
                 (legal_from rack shape i) (best_move, high_score)),
          snd (fold (\<lambda>c bh. if score c > snd bh then (c, score c) else bh)
                 (legal_from rack shape i) (best_move, high_score)), rack)"
proof (induction "fst shape - i" arbitrary: i best_move high_score)
  case 0
  then have "\<not> i < fst shape" by simp
  then show ?case
    by (subst pick_move_loop.simps) (simp add: legal_from_done)
next
  case (Suc n)
  then have i: "i < fst shape" by simp
  from Suc have n: "n = fst shape - Suc i" by simp
  note IH = Suc.hyps(1) [OF n]
  show ?case
  proof (cases "legal rack shape i")
    case True
    show ?thesis
      by (subst pick_move_loop.simps)
        (simp add: i True make_move_valid [OF v i] r [OF i True] unmake_move_valid [OF v i True p]
          legal_from_step [OF i] IH)
  next
    case False
    show ?thesis
      by (subst pick_move_loop.simps)
        (simp add: i False make_move_valid [OF v i] legal_from_step [OF i] IH)
  qed
qed

lemma fold_best_move:
  "fold (\<lambda>c bh. if score c > snd bh then (c, score c) else bh) cs (b0, h0 :: rat) = (b, h) \<Longrightarrow>
     (b = b0 \<and> h = h0 \<and> (\<forall>c \<in> set cs. score c \<le> h0))
   \<or> (\<exists>pre post. cs = pre @ b # post \<and> h = score b \<and> h0 < h
         \<and> (\<forall>c \<in> set pre. score c < h) \<and> (\<forall>c \<in> set post. score c \<le> h))"
proof (induction cs arbitrary: b h rule: rev_induct)
  case Nil
  then show ?case by simp
next
  case (snoc x xs)
  obtain b1 h1 where f: "fold (\<lambda>c bh. if score c > snd bh then (c, score c) else bh) xs (b0, h0)
      = (b1, h1)"
    by (cases "fold (\<lambda>c bh. if score c > snd bh then (c, score c) else bh) xs (b0, h0)")
  note IH = snoc.IH [OF f]
  have le: "\<forall>c \<in> set xs. score c \<le> h1" and h0h1: "h0 \<le> h1"
    using IH by (auto simp add: less_le)
  show ?case
  proof (cases "score x > h1")
    case True
    with snoc.prems f have bh: "b = x" "h = score x" by auto
    have "xs @ [x] = xs @ b # [] \<and> h = score b \<and> h0 < h
        \<and> (\<forall>c \<in> set xs. score c < h) \<and> (\<forall>c \<in> set []. score c \<le> h)"
      using le h0h1 True bh by auto
    then show ?thesis
      by (intro disjI2 exI)
  next
    case False
    with snoc.prems f have bh: "b = b1" "h = h1" by auto
    from IH show ?thesis
    proof
      assume "b1 = b0 \<and> h1 = h0 \<and> (\<forall>c \<in> set xs. score c \<le> h0)"
      then have "b = b0 \<and> h = h0 \<and> (\<forall>c \<in> set (xs @ [x]). score c \<le> h0)"
        using bh False by (auto simp add: not_less)
      then show ?thesis
        by (rule disjI1)
    next
      assume "\<exists>pre post. xs = pre @ b1 # post \<and> h1 = score b1 \<and> h0 < h1
         \<and> (\<forall>c \<in> set pre. score c < h1) \<and> (\<forall>c \<in> set post. score c \<le> h1)"
      then obtain pre post where pp: "xs = pre @ b1 # post" "h1 = score b1" "h0 < h1"
        "\<forall>c \<in> set pre. score c < h1" "\<forall>c \<in> set post. score c \<le> h1"
        by blast
      have "xs @ [x] = pre @ b # (post @ [x]) \<and> h = score b \<and> h0 < h
          \<and> (\<forall>c \<in> set pre. score c < h) \<and> (\<forall>c \<in> set (post @ [x]). score c \<le> h)"
        using pp bh False by (auto simp add: not_less)
      then show ?thesis
        by (intro disjI2 exI)
    qed
  qed
qed

lemma legal_from_sorted: "sorted_wrt (<) (legal_from rack shape i)"
  by (simp add: legal_from_def sorted_wrt_filter)

lemma leftmost_best_move:
  assumes f: "fold (\<lambda>c bh. if score c > snd bh then (c, score c) else bh) cs (b0, h0 :: rat) = (b, h)"
    and ne: "cs \<noteq> []" and above: "\<And>c. c \<in> set cs \<Longrightarrow> h0 < score c"
    and sorted: "sorted_wrt (<) (cs :: nat list)"
  shows "b \<in> set cs \<and> h = score b \<and> (\<forall>c \<in> set cs. score c \<le> score b)
       \<and> (\<forall>c \<in> set cs. c < b \<longrightarrow> score c < score b)"
proof -
  from ne obtain c0 where c0: "c0 \<in> set cs" by (cases cs) auto
  have "\<not> (\<forall>c \<in> set cs. score c \<le> h0)"
    using above [OF c0] c0 by (auto simp add: not_le)
  with fold_best_move [OF f] obtain pre post where pp: "cs = pre @ b # post" "h = score b"
      "\<forall>c \<in> set pre. score c < h" "\<forall>c \<in> set post. score c \<le> h"
    by blast
  have after: "\<forall>c \<in> set post. b < c"
    using sorted pp(1) by (simp add: sorted_wrt_append)
  have "\<forall>c \<in> set cs. c < b \<longrightarrow> score c < score b"
  proof (intro ballI impI)
    fix c
    assume c: "c \<in> set cs" "c < b"
    with after pp(1) have "c \<in> set pre" by auto
    with pp(2,3) show "score c < score b" by simp
  qed
  moreover have "\<forall>c \<in> set cs. score c \<le> score b"
    using pp by auto
  ultimately show ?thesis
    using pp(1,2) by simp
qed

lemma pick_move_full:
  assumes rk: "heap ! r = rack" and sh: "shape = (length rack, length (rack ! 0))"
    and v: "valid_board rack shape" and full: "rack_full rack shape"
  shows "pick_move depth self heap r = (Inr None, heap @ [rack])"
proof -
  have ne: "rack \<noteq> []"
    using v by (auto simp add: valid_board_def)
  have np: "np_full shape rack = Inr rack"
    using v by (simp add: np_full_def valid_board_def list_all_iff)
  have rows: "snd shape \<noteq> 0"
    using v by (simp add: valid_board_def)
  show ?thesis
    using ne np rows full
    by (simp add: pick_move_def rk Let_def sh [symmetric])
qed

lemma pick_move_result:
  assumes rk: "heap ! r = rack" and sh: "shape = (length rack, length (rack ! 0))"
    and v: "valid_board rack shape" and id: "ID self \<noteq> 0"
    and fc: "free_cells rack \<le> depth" and small: "fst shape * snd shape < 25000000"
    and nf: "\<not> rack_full rack shape"
  shows "\<exists>score c.
      (\<forall>c' \<in> set (legal_from rack shape 0).
          minimax depth self (drop_disc rack c' (ID self)) shape 1
            = Inr (score c', drop_disc rack c' (ID self))
          \<and> \<bar>score c'\<bar> \<le> max 1000000001 (heuristic_bound shape)
          \<and> (\<not> snd (board_state_score self (drop_disc rack c' (ID self)) shape)
               \<longrightarrow> \<bar>score c'\<bar> \<le> max 500000001 (heuristic_bound shape))
          \<and> (snd (board_state_score self (drop_disc rack c' (ID self)) shape)
               \<longrightarrow> int_true_divide
                     (fst (board_state_score self (drop_disc rack c' (ID self)) shape)) 1
                   = Inr (score c')))
    \<and> pick_move depth self heap r = (Inr (Some c), heap @ [rack])
    \<and> c = fst (fold (\<lambda>c bh. if score c > snd bh then (c, score c) else bh)
                  (legal_from rack shape 0) (0, - 10000000000))
    \<and> c \<in> set (legal_from rack shape 0)
    \<and> (\<forall>c' \<in> set (legal_from rack shape 0). score c' \<le> score c)
    \<and> (\<forall>c' \<in> set (legal_from rack shape 0). c' < c \<longrightarrow> score c' < score c)"
proof -
  let ?cs = "legal_from rack shape 0"
  let ?step = "\<lambda>c bh. if score c > snd bh then (c, score c) else bh"
  have ne: "rack \<noteq> []"
    using v by (auto simp add: valid_board_def)
  have np: "np_full shape rack = Inr rack"
    using v by (simp add: np_full_def valid_board_def list_all_iff)
  have rows: "snd shape \<noteq> 0"
    using v by (simp add: valid_board_def)
  define score where
    "score c = fst (projr (minimax depth self (drop_disc rack c (ID self)) shape 1))" for c
  let ?step = "\<lambda>c bh. if score c > snd bh then (c, score c) else bh"
  have child: "minimax depth self (drop_disc rack c (ID self)) shape 1
        = Inr (score c, drop_disc rack c (ID self))
      \<and> \<bar>score c\<bar> \<le> max 1000000001 (heuristic_bound shape)
      \<and> (\<not> snd (board_state_score self (drop_disc rack c (ID self)) shape)
           \<longrightarrow> \<bar>score c\<bar> \<le> max 500000001 (heuristic_bound shape))
      \<and> (snd (board_state_score self (drop_disc rack c (ID self)) shape)
           \<longrightarrow> int_true_divide
                 (fst (board_state_score self (drop_disc rack c (ID self)) shape)) 1
               = Inr (score c))"
    if c: "c < fst shape" "legal rack shape c" for c
  proof -
    let ?child = "drop_disc rack c (ID self)"
    have "valid_board ?child shape"
      using v c id by (rule valid_drop_disc)
    moreover have "free_cells ?child < depth"
      using free_cells_drop_disc [OF v c id] fc by simp
    ultimately have "\<exists>s. minimax depth self ?child shape 1 = Inr (s, ?child)
       \<and> \<bar>s\<bar> \<le> max (1000000000 / rat_of_int 1 + 1) (heuristic_bound shape)
       \<and> (\<not> snd (board_state_score self ?child shape)
            \<longrightarrow> \<bar>s\<bar> \<le> max (1000000000 / rat_of_int (1 + 1) + 1) (heuristic_bound shape))
       \<and> (snd (board_state_score self ?child shape)
            \<longrightarrow> int_true_divide (fst (board_state_score self ?child shape)) 1 = Inr s)
       \<and> (\<not> snd (board_state_score self ?child shape) \<and> rack_full ?child shape \<longrightarrow> s = 0)
       \<and> (\<not> snd (board_state_score self ?child shape) \<and> \<not> rack_full ?child shape
              \<and> 1 = MAX_PLIES self
            \<longrightarrow> s = rat_of_int (fst (board_state_score self ?child shape)))"
      using id small by (intro minimax_ok) simp_all
    then obtain s where s: "minimax depth self ?child shape 1 = Inr (s, ?child)"
      and b1: "\<bar>s\<bar> \<le> max (1000000000 / rat_of_int 1 + 1) (heuristic_bound shape)"
      and b2: "\<not> snd (board_state_score self ?child shape)
            \<longrightarrow> \<bar>s\<bar> \<le> max (1000000000 / rat_of_int (1 + 1) + 1) (heuristic_bound shape)"
      and w: "snd (board_state_score self ?child shape)
            \<longrightarrow> int_true_divide (fst (board_state_score self ?child shape)) 1 = Inr s"
      by blast
    from s have sc: "score c = s"
      by (simp add: score_def)
    from b1 have "\<bar>s\<bar> \<le> max 1000000001 (heuristic_bound shape)"
      by simp
    moreover from b2 have "\<not> snd (board_state_score self ?child shape)
            \<longrightarrow> \<bar>s\<bar> \<le> max 500000001 (heuristic_bound shape)"
      by simp
    ultimately show ?thesis
      using s w by (simp add: sc)
  qed
  have above: "- 10000000000 < score c" if "c \<in> set ?cs" for c
  proof -
    have "\<bar>score c\<bar> \<le> max 1000000001 (heuristic_bound shape)"
      using child that legal_from_set by blast
    also have "\<dots> < 10000000000"
      using heuristic_bound_small [OF small] by simp
    finally show ?thesis
      unfolding abs_less_iff by linarith
  qed
  obtain b h where f: "fold ?step ?cs (0, - 10000000000) = (b, h)"
    by (cases "fold ?step ?cs (0, - 10000000000)")
  have csne: "?cs \<noteq> []"
    using nf by (simp add: rack_full_iff)
  note best = leftmost_best_move [of score ?cs 0 "- 10000000000" b h, OF f csne above
      legal_from_sorted]
  have loop: "pick_move_loop depth self rack shape 0 0 (- 10000000000) = Inr (b, h, rack)"
    using pick_move_loop_result [of rack shape self depth score 0 0 "- 10000000000", OF v id]
      child f by simp
  have "pick_move depth self heap r = (Inr (Some b), heap @ [rack])"
    using ne np rows nf loop
    by (simp add: pick_move_def rk Let_def sh [symmetric])
  moreover have "b = fst (fold ?step ?cs (0, - 10000000000))"
    using f by simp
  moreover have "\<forall>c' \<in> set ?cs.
          minimax depth self (drop_disc rack c' (ID self)) shape 1
            = Inr (score c', drop_disc rack c' (ID self))
          \<and> \<bar>score c'\<bar> \<le> max 1000000001 (heuristic_bound shape)
          \<and> (\<not> snd (board_state_score self (drop_disc rack c' (ID self)) shape)
               \<longrightarrow> \<bar>score c'\<bar> \<le> max 500000001 (heuristic_bound shape))
          \<and> (snd (board_state_score self (drop_disc rack c' (ID self)) shape)
               \<longrightarrow> int_true_divide
                     (fst (board_state_score self (drop_disc rack c' (ID self)) shape)) 1
                   = Inr (score c'))"
    using child legal_from_set by blast
  ultimately show ?thesis
    using best by (intro exI [of _ score] exI [of _ b]) simp
qed

section \<open>\<open>pick_move\<close> and the recursive case of \<open>_minimax\<close>\<close>

lemma rack_full_top_cells:
  "rack_full rack shape = (\<forall>c < fst shape. rack ! c ! (snd shape - 1) \<noteq> 0)"
  by (auto simp add: rack_full_def rack_full_loop_iff legal_def)

text \<open>
  Claim C2: \<open>pick_move\<close> returns \<open>None\<close> if and only if the board is full (every column's
  top cell is non-empty); when the board is not full it returns a column index below the
  number of columns whose top cell is empty. The board is a board of the data model (at
  least one column and one row, every column gravity-consistent) of fewer than
  25000000 cells, so that no score reaches the initial high score - 10000000000, and the
  recursion limit is at least the number of free cells.
\<close>

theorem pick_move_returns_legal_column:
  assumes "heap ! r = rack" and "shape = (length rack, length (rack ! 0))"
    and "valid_board rack shape" and "ID self \<noteq> 0"
    and "free_cells rack \<le> depth" and "fst shape * snd shape < 25000000"
  shows "(fst (pick_move depth self heap r) = Inr None) = rack_full rack shape
       \<and> rack_full rack shape = (\<forall>c < fst shape. rack ! c ! (snd shape - 1) \<noteq> 0)
       \<and> (\<not> rack_full rack shape \<longrightarrow>
            (\<exists>c. fst (pick_move depth self heap r) = Inr (Some c) \<and> c < fst shape
                 \<and> rack ! c ! (snd shape - 1) = 0))"
proof (cases "rack_full rack shape")
  case True
  then show ?thesis
    using pick_move_full [OF assms(1-3) True] rack_full_top_cells [of rack shape] by simp
next
  case False
  from pick_move_result [OF assms False] obtain c where
    "pick_move depth self heap r = (Inr (Some c), heap @ [rack])"
    and "c \<in> set (legal_from rack shape 0)"
    by blast
  then have "fst (pick_move depth self heap r) = Inr (Some c) \<and> c < fst shape
      \<and> rack ! c ! (snd shape - 1) = 0"
    using legal_from_set [of c rack shape 0] by (simp add: legal_def)
  then show ?thesis
    using False rack_full_top_cells [of rack shape] by auto
qed

theorem pick_move_returns_legal_column_witness:
  "\<not> rack_full [[1, 0], [2, 1]] (2, 2)
   \<and> (\<exists>c. fst (pick_move 1 \<lparr>ID = 1, MAX_PLIES = 2\<rparr> [[[1, 0], [2, 1]]] 0) = Inr (Some c)
          \<and> c < 2 \<and> [[1, 0], [2, 1]] ! c ! 1 = (0 :: int))
   \<and> fst (pick_move 0 \<lparr>ID = 1, MAX_PLIES = 2\<rparr> [[[1, 2], [2, 1]]] 0) = Inr None"
proof -
  have v: "valid_board [[1, 0], [2, 1]] (2, 2)" "valid_board [[1, 2], [2, 1]] (2, 2)"
    by (simp_all add: valid_board_def gravity_def)
  have f: "free_cells [[1, 0], [2, 1]] \<le> 1" "free_cells [[1, 2], [2, 1]] \<le> 0"
    by (simp_all add: free_cells_def height_def)
  have nf: "\<not> rack_full [[1, 0], [2, 1]] (2, 2)"
    by code_simp
  have full: "rack_full [[1, 2], [2, 1]] (2, 2)"
    by code_simp
  show ?thesis
    using pick_move_returns_legal_column [of "[[[1, 0], [2, 1]]]" 0 "[[1, 0], [2, 1]]" "(2, 2)"
        "\<lparr>ID = 1, MAX_PLIES = 2\<rparr>" 1, OF _ _ v(1) _ f(1)]
      pick_move_returns_legal_column [of "[[[1, 2], [2, 1]]]" 0 "[[1, 2], [2, 1]]" "(2, 2)"
        "\<lparr>ID = 1, MAX_PLIES = 2\<rparr>" 0, OF _ _ v(2) _ f(2)]
      nf full
    by simp
qed

text \<open>
  Claim C3: at the root, \<open>pick_move\<close> goes through the columns that are not full from
  left to right and replaces the incumbent best column only when a column's minimax score
  is strictly greater than the best score so far; the column returned has the maximum
  score, and every column to its left that is not full has a strictly smaller score.
\<close>

theorem pick_move_leftmost_maximum:
  assumes "heap ! r = rack" and "shape = (length rack, length (rack ! 0))"
    and "valid_board rack shape" and "ID self \<noteq> 0"
    and "free_cells rack \<le> depth" and "fst shape * snd shape < 25000000"
    and "\<not> rack_full rack shape"
  shows "\<exists>score c.
      (\<forall>c' \<in> set (legal_from rack shape 0).
          minimax depth self (drop_disc rack c' (ID self)) shape 1
            = Inr (score c', drop_disc rack c' (ID self)))
    \<and> fst (pick_move depth self heap r) = Inr (Some c)
    \<and> c = fst (fold (\<lambda>c bh. if score c > snd bh then (c, score c) else bh)
                  (legal_from rack shape 0) (0, - 10000000000))
    \<and> c \<in> set (legal_from rack shape 0)
    \<and> (\<forall>c' \<in> set (legal_from rack shape 0). score c' \<le> score c)
    \<and> (\<forall>c' \<in> set (legal_from rack shape 0). c' < c \<longrightarrow> score c' < score c)"
proof -
  from pick_move_result [OF assms] obtain score c where
    1: "\<forall>c' \<in> set (legal_from rack shape 0).
          minimax depth self (drop_disc rack c' (ID self)) shape 1
            = Inr (score c', drop_disc rack c' (ID self))"
    and 2: "pick_move depth self heap r = (Inr (Some c), heap @ [rack])"
    and 3: "c = fst (fold (\<lambda>c bh. if score c > snd bh then (c, score c) else bh)
                  (legal_from rack shape 0) (0, - 10000000000))"
    and 4: "c \<in> set (legal_from rack shape 0)"
    and 5: "\<forall>c' \<in> set (legal_from rack shape 0). score c' \<le> score c"
    and 6: "\<forall>c' \<in> set (legal_from rack shape 0). c' < c \<longrightarrow> score c' < score c"
    by blast
  from 2 have "fst (pick_move depth self heap r) = Inr (Some c)" by simp
  with 1 3 4 5 6 show ?thesis
    by (intro exI [of _ score] exI [of _ c] conjI)
qed

theorem pick_move_leftmost_maximum_witness:
  "\<exists>score c.
      (\<forall>c' \<in> set (legal_from [[1, 0], [0, 0]] (2, 2) 0).
          minimax 3 \<lparr>ID = 1, MAX_PLIES = 1\<rparr> (drop_disc [[1, 0], [0, 0]] c' 1) (2, 2) 1
            = Inr (score c', drop_disc [[1, 0], [0, 0]] c' 1))
    \<and> fst (pick_move 3 \<lparr>ID = 1, MAX_PLIES = 1\<rparr> [[[1, 0], [0, 0]]] 0) = Inr (Some c)
    \<and> c \<in> set (legal_from [[1, 0], [0, 0]] (2, 2) 0)
    \<and> (\<forall>c' \<in> set (legal_from [[1, 0], [0, 0]] (2, 2) 0). score c' \<le> score c)
    \<and> (\<forall>c' \<in> set (legal_from [[1, 0], [0, 0]] (2, 2) 0). c' < c \<longrightarrow> score c' < score c)"
proof -
  have v: "valid_board [[1, 0], [0, 0]] (2, 2)"
    by (simp add: valid_board_def gravity_def)
  have f: "free_cells [[1, 0], [0, 0]] \<le> 3"
    by (simp add: free_cells_def height_def)
  have nf: "\<not> rack_full [[1, 0], [0, 0]] (2, 2)"
    by code_simp
  show ?thesis
    using pick_move_leftmost_maximum [of "[[[1, 0], [0, 0]]]" 0 "[[1, 0], [0, 0]]" "(2, 2)"
        "\<lparr>ID = 1, MAX_PLIES = 1\<rparr>" 3, OF _ _ v _ f _ nf]
    by simp blast
qed

text \<open>
  Claim C9: \<open>pick_move\<close> leaves the caller's rack unchanged: every object of the store
  that existed before the call, the rack among them, is the same after it; the engine
  writes only to its own copy.
\<close>

theorem pick_move_keeps_callers_rack:
  "take (length heap) (snd (pick_move depth self heap r)) = heap
   \<and> (r < length heap \<longrightarrow> snd (pick_move depth self heap r) ! r = heap ! r)"
proof -
  have "take (length heap) (snd (pick_move depth self heap r)) = heap"
    by (simp add: pick_move_def Let_def split: sum.splits prod.splits)
  moreover have "snd (pick_move depth self heap r) ! r = heap ! r" if "r < length heap"
    using that by (simp add: pick_move_def Let_def nth_append split: sum.splits prod.splits)
  ultimately show ?thesis by simp
qed

theorem pick_move_keeps_callers_rack_witness:
  "snd (pick_move 1 \<lparr>ID = 1, MAX_PLIES = 1\<rparr> [replicate 7 (replicate 6 0)] 0) ! 0
     = replicate 7 (replicate 6 0)"
  using pick_move_keeps_callers_rack [of "[replicate 7 (replicate 6 0)]" 1
      "\<lparr>ID = 1, MAX_PLIES = 1\<rparr>" 0]
  by simp

text \<open>
  Claim C4: at a node of \<open>_minimax\<close> that is neither a win, nor full, nor at the depth
  cutoff, the children are the boards after \<open>_make_move\<close> on each column that is not
  full, from left to right (a full column is skipped); at an odd ply the disc placed is
  the non-engine player's and the node returns the minimum of the children's scores, at
  an even ply the disc is the engine's and the node returns the maximum. A child's score
  is what the recursive call on the child's board returns at the next ply: the float
  quotient of the win score when the child is a win, 0 when it is full, the aggregate
  score when it is at the depth cutoff.
\<close>

theorem minimax_min_max_of_children:
  assumes v: "valid_board rack shape" and id: "ID self = 1 \<or> ID self = 2" and ply: "1 \<le> ply"
    and fc: "free_cells rack \<le> depth" and small: "fst shape * snd shape < 25000000"
    and nw: "\<not> snd (board_state_score self rack shape)"
    and nf: "\<not> rack_full rack shape"
    and nc: "ply \<noteq> MAX_PLIES self"
    and pl: "player = (if ply mod 2 = 1 then 3 - ID self else ID self)"
  shows "\<exists>score.
      legal_from rack shape 0 = filter (\<lambda>c. rack ! c ! (snd shape - 1) = 0) [0 ..< fst shape]
    \<and> (\<forall>c < fst shape. c \<notin> set (legal_from rack shape 0)
          \<longrightarrow> make_move rack c shape player = (False, rack))
    \<and> (\<forall>c \<in> set (legal_from rack shape 0).
          make_move rack c shape player = (True, drop_disc rack c player)
          \<and> minimax depth self (drop_disc rack c player) shape (ply + 1)
              = Inr (score c, drop_disc rack c player)
          \<and> (snd (board_state_score self (drop_disc rack c player) shape)
               \<longrightarrow> int_true_divide
                     (fst (board_state_score self (drop_disc rack c player) shape)) (ply + 1)
                   = Inr (score c))
          \<and> (\<not> snd (board_state_score self (drop_disc rack c player) shape)
                 \<and> rack_full (drop_disc rack c player) shape
               \<longrightarrow> score c = 0)
          \<and> (\<not> snd (board_state_score self (drop_disc rack c player) shape)
                 \<and> \<not> rack_full (drop_disc rack c player) shape
                 \<and> ply + 1 = MAX_PLIES self
               \<longrightarrow> score c
                   = rat_of_int (fst (board_state_score self (drop_disc rack c player) shape))))
    \<and> minimax (Suc depth) self rack shape ply
        = Inr (if ply mod 2 = 1 then Min (score ` set (legal_from rack shape 0))
               else Max (score ` set (legal_from rack shape 0)), rack)"
proof -
  let ?cs = "legal_from rack shape 0"
  have pl': "player = (if ply mod 2 = 1 then (if ID self = 1 then 2 else 1) else ID self)"
    using id pl by auto
  have p: "player \<noteq> 0"
    using id pl by auto
  have id0: "ID self \<noteq> 0"
    using id by auto
  define score where
    "score c = fst (projr (minimax depth self (drop_disc rack c player) shape (ply + 1)))" for c
  have child: "minimax depth self (drop_disc rack c player) shape (ply + 1)
        = Inr (score c, drop_disc rack c player)
      \<and> \<bar>score c\<bar> \<le> max (1000000000 / rat_of_int (ply + 1) + 1) (heuristic_bound shape)
      \<and> (snd (board_state_score self (drop_disc rack c player) shape)
           \<longrightarrow> int_true_divide
                 (fst (board_state_score self (drop_disc rack c player) shape)) (ply + 1)
               = Inr (score c))
      \<and> (\<not> snd (board_state_score self (drop_disc rack c player) shape)
             \<and> rack_full (drop_disc rack c player) shape
           \<longrightarrow> score c = 0)
      \<and> (\<not> snd (board_state_score self (drop_disc rack c player) shape)
             \<and> \<not> rack_full (drop_disc rack c player) shape
             \<and> ply + 1 = MAX_PLIES self
           \<longrightarrow> score c
               = rat_of_int (fst (board_state_score self (drop_disc rack c player) shape)))"
    if c: "c < fst shape" "legal rack shape c" for c
  proof -
    let ?child = "drop_disc rack c player"
    have "valid_board ?child shape"
      using v c p by (rule valid_drop_disc)
    moreover have "free_cells ?child < depth"
      using free_cells_drop_disc [OF v c p] fc by simp
    moreover have "1 \<le> ply + 1"
      using ply by simp
    ultimately have "\<exists>s. minimax depth self ?child shape (ply + 1) = Inr (s, ?child)
       \<and> \<bar>s\<bar> \<le> max (1000000000 / rat_of_int (ply + 1) + 1) (heuristic_bound shape)
       \<and> (\<not> snd (board_state_score self ?child shape)
            \<longrightarrow> \<bar>s\<bar> \<le> max (1000000000 / rat_of_int (ply + 1 + 1) + 1) (heuristic_bound shape))
       \<and> (snd (board_state_score self ?child shape)
            \<longrightarrow> int_true_divide (fst (board_state_score self ?child shape)) (ply + 1) = Inr s)
       \<and> (\<not> snd (board_state_score self ?child shape) \<and> rack_full ?child shape \<longrightarrow> s = 0)
       \<and> (\<not> snd (board_state_score self ?child shape) \<and> \<not> rack_full ?child shape
              \<and> ply + 1 = MAX_PLIES self
            \<longrightarrow> s = rat_of_int (fst (board_state_score self ?child shape)))"
      using id0 small by (intro minimax_ok)
    then obtain s where s: "minimax depth self ?child shape (ply + 1) = Inr (s, ?child)"
      and rest: "\<bar>s\<bar> \<le> max (1000000000 / rat_of_int (ply + 1) + 1) (heuristic_bound shape)"
        "snd (board_state_score self ?child shape)
            \<longrightarrow> int_true_divide (fst (board_state_score self ?child shape)) (ply + 1) = Inr s"
        "\<not> snd (board_state_score self ?child shape) \<and> rack_full ?child shape \<longrightarrow> s = 0"
        "\<not> snd (board_state_score self ?child shape) \<and> \<not> rack_full ?child shape
              \<and> ply + 1 = MAX_PLIES self
            \<longrightarrow> s = rat_of_int (fst (board_state_score self ?child shape))"
      by blast
    from s have "score c = s"
      by (simp add: score_def)
    with s rest show ?thesis
      by simp
  qed
  have small': "max (1000000000 / rat_of_int (ply + 1) + 1) (heuristic_bound shape) < 10000000000"
  proof -
    have "1 \<le> ply + 1" using ply by simp
    then have "1000000000 / rat_of_int (ply + 1) \<le> 1000000000"
      by (rule win_share_bounds(2))
    then show ?thesis
      using heuristic_bound_small [OF small] by simp
  qed
  have val: "minimax (Suc depth) self rack shape ply
      = Inr (if ply mod 2 = 1 then Min (score ` set ?cs) else Max (score ` set ?cs), rack)"
  proof (rule minimax_Suc_recursive [OF v pl' p nw nf nc])
    fix c
    assume c: "c < fst shape" "legal rack shape c"
    show "minimax depth self (drop_disc rack c player) shape (ply + 1)
        = Inr (score c, drop_disc rack c player)"
      using child [OF c] by simp
    have "\<bar>score c\<bar> \<le> max (1000000000 / rat_of_int (ply + 1) + 1) (heuristic_bound shape)"
      using child [OF c] by simp
    then have "\<bar>score c\<bar> < 10000000000"
      using small' by (rule le_less_trans)
    then show "- 10000000000 < score c \<and> score c < 10000000000"
      unfolding abs_less_iff by linarith
  qed
  have cols: "?cs = filter (\<lambda>c. rack ! c ! (snd shape - 1) = 0) [0 ..< fst shape]"
    by (simp add: legal_from_def legal_def [abs_def])
  have skipped: "\<forall>c < fst shape. c \<notin> set ?cs \<longrightarrow> make_move rack c shape player = (False, rack)"
    using make_move_valid [OF v] by (simp add: legal_from_def)
  have moved: "\<forall>c \<in> set ?cs. make_move rack c shape player = (True, drop_disc rack c player)"
    using make_move_valid [OF v] by (simp add: legal_from_def)
  have made: "\<forall>c \<in> set ?cs.
          make_move rack c shape player = (True, drop_disc rack c player)
          \<and> minimax depth self (drop_disc rack c player) shape (ply + 1)
              = Inr (score c, drop_disc rack c player)
          \<and> (snd (board_state_score self (drop_disc rack c player) shape)
               \<longrightarrow> int_true_divide
                     (fst (board_state_score self (drop_disc rack c player) shape)) (ply + 1)
                   = Inr (score c))
          \<and> (\<not> snd (board_state_score self (drop_disc rack c player) shape)
                 \<and> rack_full (drop_disc rack c player) shape
               \<longrightarrow> score c = 0)
          \<and> (\<not> snd (board_state_score self (drop_disc rack c player) shape)
                 \<and> \<not> rack_full (drop_disc rack c player) shape
                 \<and> ply + 1 = MAX_PLIES self
               \<longrightarrow> score c
                   = rat_of_int (fst (board_state_score self (drop_disc rack c player) shape)))"
  proof
    fix c
    assume c: "c \<in> set ?cs"
    then have "c < fst shape" "legal rack shape c"
      using legal_from_set by blast+
    from child [OF this] moved c show "make_move rack c shape player = (True, drop_disc rack c player)
          \<and> minimax depth self (drop_disc rack c player) shape (ply + 1)
              = Inr (score c, drop_disc rack c player)
          \<and> (snd (board_state_score self (drop_disc rack c player) shape)
               \<longrightarrow> int_true_divide
                     (fst (board_state_score self (drop_disc rack c player) shape)) (ply + 1)
                   = Inr (score c))
          \<and> (\<not> snd (board_state_score self (drop_disc rack c player) shape)
                 \<and> rack_full (drop_disc rack c player) shape
               \<longrightarrow> score c = 0)
          \<and> (\<not> snd (board_state_score self (drop_disc rack c player) shape)
                 \<and> \<not> rack_full (drop_disc rack c player) shape
                 \<and> ply + 1 = MAX_PLIES self
               \<longrightarrow> score c
                   = rat_of_int (fst (board_state_score self (drop_disc rack c player) shape)))"
      by blast
  qed
  from cols skipped made val show ?thesis
    by (intro exI [of _ score] conjI)
qed

theorem minimax_min_max_of_children_witness:
  "map (\<lambda>c. minimax 12 \<lparr>ID = 1, MAX_PLIES = 2\<rparr>
            (drop_disc [[1, 2, 0, 0], [1, 0, 0, 0], [0, 0, 0, 0], [2, 0, 0, 0]] c 2) (4, 4) 2)
     (legal_from [[1, 2, 0, 0], [1, 0, 0, 0], [0, 0, 0, 0], [2, 0, 0, 0]] (4, 4) 0)
     = [Inr (- 2, [[1, 2, 2, 0], [1, 0, 0, 0], [0, 0, 0, 0], [2, 0, 0, 0]]),
        Inr (- 12, [[1, 2, 0, 0], [1, 2, 0, 0], [0, 0, 0, 0], [2, 0, 0, 0]]),
        Inr (- 2, [[1, 2, 0, 0], [1, 0, 0, 0], [2, 0, 0, 0], [2, 0, 0, 0]]),
        Inr (- 19, [[1, 2, 0, 0], [1, 0, 0, 0], [0, 0, 0, 0], [2, 2, 0, 0]])]
   \<and> minimax 13 \<lparr>ID = 1, MAX_PLIES = 2\<rparr>
         [[1, 2, 0, 0], [1, 0, 0, 0], [0, 0, 0, 0], [2, 0, 0, 0]] (4, 4) 1
       = Inr (- 19, [[1, 2, 0, 0], [1, 0, 0, 0], [0, 0, 0, 0], [2, 0, 0, 0]])
   \<and> map (\<lambda>c. minimax 12 \<lparr>ID = 1, MAX_PLIES = 3\<rparr>
            (drop_disc [[1, 2, 0, 0], [1, 0, 0, 0], [0, 0, 0, 0], [2, 0, 0, 0]] c 1) (4, 4) 3)
     (legal_from [[1, 2, 0, 0], [1, 0, 0, 0], [0, 0, 0, 0], [2, 0, 0, 0]] (4, 4) 0)
     = [Inr (0, [[1, 2, 1, 0], [1, 0, 0, 0], [0, 0, 0, 0], [2, 0, 0, 0]]),
        Inr (18, [[1, 2, 0, 0], [1, 1, 0, 0], [0, 0, 0, 0], [2, 0, 0, 0]]),
        Inr (0, [[1, 2, 0, 0], [1, 0, 0, 0], [1, 0, 0, 0], [2, 0, 0, 0]]),
        Inr (1, [[1, 2, 0, 0], [1, 0, 0, 0], [0, 0, 0, 0], [2, 1, 0, 0]])]
   \<and> minimax 13 \<lparr>ID = 1, MAX_PLIES = 3\<rparr>
         [[1, 2, 0, 0], [1, 0, 0, 0], [0, 0, 0, 0], [2, 0, 0, 0]] (4, 4) 2
       = Inr (18, [[1, 2, 0, 0], [1, 0, 0, 0], [0, 0, 0, 0], [2, 0, 0, 0]])"
proof -
  let ?rack = "[[1, 2, 0, 0], [1, 0, 0, 0], [0, 0, 0, 0], [2, 0, 0, 0]] :: rack"
  let ?odd = "\<lparr>ID = 1, MAX_PLIES = 2\<rparr>"
  let ?even = "\<lparr>ID = 1, MAX_PLIES = 3\<rparr>"
  have v: "valid_board ?rack (4, 4)"
    by code_simp
  have f: "free_cells ?rack \<le> 12"
    by code_simp
  have nf: "\<not> rack_full ?rack (4, 4)"
    by code_simp
  have nw: "\<not> snd (board_state_score ?odd ?rack (4, 4))"
    "\<not> snd (board_state_score ?even ?rack (4, 4))"
    by code_simp+
  have cs: "legal_from ?rack (4, 4) 0 = [0, 1, 2, 3]"
    by code_simp
  have odd: "map (\<lambda>c. minimax 12 ?odd (drop_disc ?rack c 2) (4, 4) 2) [0, 1, 2, 3]
     = [Inr (- 2, [[1, 2, 2, 0], [1, 0, 0, 0], [0, 0, 0, 0], [2, 0, 0, 0]]),
        Inr (- 12, [[1, 2, 0, 0], [1, 2, 0, 0], [0, 0, 0, 0], [2, 0, 0, 0]]),
        Inr (- 2, [[1, 2, 0, 0], [1, 0, 0, 0], [2, 0, 0, 0], [2, 0, 0, 0]]),
        Inr (- 19, [[1, 2, 0, 0], [1, 0, 0, 0], [0, 0, 0, 0], [2, 2, 0, 0]])]"
    by code_simp
  have even: "map (\<lambda>c. minimax 12 ?even (drop_disc ?rack c 1) (4, 4) 3) [0, 1, 2, 3]
     = [Inr (0, [[1, 2, 1, 0], [1, 0, 0, 0], [0, 0, 0, 0], [2, 0, 0, 0]]),
        Inr (18, [[1, 2, 0, 0], [1, 1, 0, 0], [0, 0, 0, 0], [2, 0, 0, 0]]),
        Inr (0, [[1, 2, 0, 0], [1, 0, 0, 0], [1, 0, 0, 0], [2, 0, 0, 0]]),
        Inr (1, [[1, 2, 0, 0], [1, 0, 0, 0], [0, 0, 0, 0], [2, 1, 0, 0]])]"
    by code_simp
  have ids: "ID ?odd = 1 \<or> ID ?odd = 2" "ID ?even = 1 \<or> ID ?even = 2"
    by simp_all
  have plies: "(1 :: int) \<le> 1" "(1 :: int) \<le> 2"
    by simp_all
  have small: "fst (4 :: nat, 4 :: nat) * snd (4 :: nat, 4 :: nat) < 25000000"
    by simp
  have nc: "1 \<noteq> MAX_PLIES ?odd" "2 \<noteq> MAX_PLIES ?even"
    by simp_all
  have pl: "(2 :: int) = (if (1 :: int) mod 2 = 1 then 3 - ID ?odd else ID ?odd)"
    "(1 :: int) = (if (2 :: int) mod 2 = 1 then 3 - ID ?even else ID ?even)"
    by simp_all
  from minimax_min_max_of_children [OF v ids(1) plies(1) f small nw(1) nf nc(1) pl(1)]
  obtain s1 where
    c1: "\<forall>c \<in> set (legal_from ?rack (4, 4) 0).
        minimax 12 ?odd (drop_disc ?rack c 2) (4, 4) (1 + 1) = Inr (s1 c, drop_disc ?rack c 2)"
    and n1: "minimax (Suc 12) ?odd ?rack (4, 4) 1
        = Inr (if (1 :: int) mod 2 = 1 then Min (s1 ` set (legal_from ?rack (4, 4) 0))
               else Max (s1 ` set (legal_from ?rack (4, 4) 0)), ?rack)"
    by blast
  from minimax_min_max_of_children [OF v ids(2) plies(2) f small nw(2) nf nc(2) pl(2)]
  obtain s2 where
    c2: "\<forall>c \<in> set (legal_from ?rack (4, 4) 0).
        minimax 12 ?even (drop_disc ?rack c 1) (4, 4) (2 + 1) = Inr (s2 c, drop_disc ?rack c 1)"
    and n2: "minimax (Suc 12) ?even ?rack (4, 4) 2
        = Inr (if (2 :: int) mod 2 = 1 then Min (s2 ` set (legal_from ?rack (4, 4) 0))
               else Max (s2 ` set (legal_from ?rack (4, 4) 0)), ?rack)"
    by blast
  have s1: "s1 0 = - 2" "s1 1 = - 12" "s1 2 = - 2" "s1 3 = - 19"
    using c1 odd by (simp_all add: cs del: minimax.simps)
  have s2: "s2 0 = 0" "s2 1 = 18" "s2 2 = 0" "s2 3 = 1"
    using c2 even by (simp_all add: cs del: minimax.simps)
  have s: "s1 (Suc 0) = - 12" "s2 (Suc 0) = 18"
    using s1(2) s2(2) by simp_all
  have "minimax (Suc 12) ?odd ?rack (4, 4) 1 = Inr (- 19, ?rack)"
    unfolding n1 by (simp add: cs s1 s)
  moreover have "minimax (Suc 12) ?even ?rack (4, 4) 2 = Inr (18, ?rack)"
    unfolding n2 by (simp add: cs s2 s)
  ultimately show ?thesis
    using odd even by (simp add: cs del: minimax.simps)
qed

section \<open>The immediate winning move\<close>

lemma quartet_score_win_iff:
  "snd (quartet_score self a b c d) = (a = b \<and> b = c \<and> c = d \<and> a \<noteq> 0)"
proof (cases "a = b \<and> b = c \<and> c = d")
  case True
  then show ?thesis
    by (simp add: quartet_score_def)
next
  case False
  have "\<not> snd (quartet_score self a b c d)"
    unfolding quartet_score_def if_not_P [OF False] by (simp add: Let_def)
  with False show ?thesis
    by blast
qed

lemma quartet_result_new_win:
  assumes "replaced (ID self) q q'" and "\<not> snd (quartet_result self q)"
    and "snd (quartet_result self q')"
  shows "quartet_result self q' = (1000000000, True)"
proof -
  obtain x1 x2 x3 x4 where q: "q = (x1, x2, x3, x4)" by (cases q)
  obtain y1 y2 y3 y4 where q': "q' = (y1, y2, y3, y4)" by (cases q')
  from assms(3) have y: "y1 = y2" "y2 = y3" "y3 = y4" "y1 \<noteq> 0"
    by (simp_all add: q' quartet_result_def quartet_score_win_iff)
  from assms(2) have x: "\<not> (x1 = x2 \<and> x2 = x3 \<and> x3 = x4 \<and> x1 \<noteq> 0)"
    by (simp add: q quartet_result_def quartet_score_win_iff)
  from assms(1) have r: "y1 = x1 \<or> y1 = ID self" "y2 = x2 \<or> y2 = ID self"
      "y3 = x3 \<or> y3 = ID self" "y4 = x4 \<or> y4 = ID self"
    by (simp_all add: q q' replaced_def)
  have "y1 = ID self"
  proof (rule ccontr)
    assume "y1 \<noteq> ID self"
    with y r have "x1 = y1" "x2 = y1" "x3 = y1" "x4 = y1" by simp_all
    with x y show False by simp
  qed
  with y show ?thesis
    by (simp add: q' quartet_result_def quartet_score_def)
qed

lemma drop_disc_cell:
  assumes "valid_board rack shape" and "c < fst shape" and "legal rack shape c"
  shows "drop_disc rack c p ! a ! b
       = (if a = c \<and> b = height (rack ! c) then p else rack ! a ! b)"
proof -
  note col = valid_board_column [OF assms(1,2)]
  have h: "height (rack ! c) < length (rack ! c)"
    using height_legal [OF assms] col(2) by simp
  show ?thesis
    using h by (simp add: drop_disc_nth [OF col(1)] nth_list_update)
qed

lemma replaced_drop_disc:
  assumes "valid_board rack shape" and "c < fst shape" and "legal rack shape c"
  shows "replaced p (rack ! a1 ! b1, rack ! a2 ! b2, rack ! a3 ! b3, rack ! a4 ! b4)
     (drop_disc rack c p ! a1 ! b1, drop_disc rack c p ! a2 ! b2,
      drop_disc rack c p ! a3 ! b3, drop_disc rack c p ! a4 ! b4)"
  by (simp add: replaced_def drop_disc_cell [OF assms])

lemma list_all2_concat_map:
  assumes "\<And>i j. R (f i j) (g i j)"
  shows "list_all2 R (concat (map (\<lambda>i. map (f i) js) is)) (concat (map (\<lambda>i. map (g i) js) is))"
proof (induction "is")
  case Nil
  show ?case by simp
next
  case (Cons i "is")
  have "list_all2 R (map (f i) js) (map (g i) js)"
    using assms by (simp add: list_all2_map1 list_all2_map2 list_all2_same)
  with Cons show ?case
    by (simp add: list_all2_appendI)
qed

lemma replaced_enumerated_quartets:
  assumes "valid_board rack shape" and "c < fst shape" and "legal rack shape c"
  shows "list_all2 (replaced p) (enumerated_quartets rack shape)
     (enumerated_quartets (drop_disc rack c p) shape)"
proof -
  note r = replaced_drop_disc [OF assms]
  have 1: "list_all2 (replaced p) (vertical_quartets rack shape)
      (vertical_quartets (drop_disc rack c p) shape)"
  proof -
    have "list_all2 (replaced p)
       (concat (map (\<lambda>i. map (\<lambda>j. (rack ! i ! j, rack ! i ! (j + 1), rack ! i ! (j + 2),
                                       rack ! i ! (j + 3))) js) is))
       (concat (map (\<lambda>i. map (\<lambda>j. (drop_disc rack c p ! i ! j, drop_disc rack c p ! i ! (j + 1),
                                       drop_disc rack c p ! i ! (j + 2),
                                       drop_disc rack c p ! i ! (j + 3))) js) is))" for js "is"
      by (rule list_all2_concat_map) (rule r)
    then show ?thesis
      by (simp add: vertical_quartets_def)
  qed
  have 2: "list_all2 (replaced p) (horizontal_quartets rack shape)
      (horizontal_quartets (drop_disc rack c p) shape)"
  proof -
    have "list_all2 (replaced p)
       (concat (map (\<lambda>i. map (\<lambda>j. (rack ! i ! j, rack ! (i + 1) ! j, rack ! (i + 2) ! j,
                                       rack ! (i + 3) ! j)) js) is))
       (concat (map (\<lambda>i. map (\<lambda>j. (drop_disc rack c p ! i ! j, drop_disc rack c p ! (i + 1) ! j,
                                       drop_disc rack c p ! (i + 2) ! j,
                                       drop_disc rack c p ! (i + 3) ! j)) js) is))" for js "is"
      by (rule list_all2_concat_map) (rule r)
    then show ?thesis
      by (simp add: horizontal_quartets_def)
  qed
  have 3: "list_all2 (replaced p) (rising_quartets rack shape)
      (rising_quartets (drop_disc rack c p) shape)"
  proof -
    have "list_all2 (replaced p)
       (concat (map (\<lambda>i. map (\<lambda>j. (rack ! i ! j, rack ! (i + 1) ! (j + 1),
                                       rack ! (i + 2) ! (j + 2), rack ! (i + 3) ! (j + 3))) js) is))
       (concat (map (\<lambda>i. map (\<lambda>j. (drop_disc rack c p ! i ! j,
                                       drop_disc rack c p ! (i + 1) ! (j + 1),
                                       drop_disc rack c p ! (i + 2) ! (j + 2),
                                       drop_disc rack c p ! (i + 3) ! (j + 3))) js) is))" for js "is"
      by (rule list_all2_concat_map) (rule r)
    then show ?thesis
      by (simp add: rising_quartets_def)
  qed
  have 4: "list_all2 (replaced p) (falling_quartets rack shape)
      (falling_quartets (drop_disc rack c p) shape)"
  proof -
    have "list_all2 (replaced p)
       (concat (map (\<lambda>i. map (\<lambda>j. (rack ! i ! j, rack ! (i - 1) ! (j + 1),
                                       rack ! (i - 2) ! (j + 2), rack ! (i - 3) ! (j + 3))) js) is))
       (concat (map (\<lambda>i. map (\<lambda>j. (drop_disc rack c p ! i ! j,
                                       drop_disc rack c p ! (i - 1) ! (j + 1),
                                       drop_disc rack c p ! (i - 2) ! (j + 2),
                                       drop_disc rack c p ! (i - 3) ! (j + 3))) js) is))" for js "is"
      by (rule list_all2_concat_map) (rule r)
    then show ?thesis
      by (simp add: falling_quartets_def)
  qed
  from 1 2 3 4 show ?thesis
    unfolding enumerated_quartets_def by (intro list_all2_appendI)
qed

lemma no_win_quartets:
  assumes "\<not> snd (board_state_score self rack shape)"
  shows "\<forall>q \<in> set (enumerated_quartets rack shape). \<not> snd (quartet_result self q)"
proof (cases "scan (map (quartet_result self) (enumerated_quartets rack shape)) 0")
  case (Inl win)
  then have "snd win" using scan_Inl by blast
  with Inl assms show ?thesis
    by (simp add: board_state_score_scan)
next
  case (Inr score)
  then show ?thesis
    using scan_Inr by fastforce
qed

lemma win_quartet:
  assumes "q \<in> set (enumerated_quartets rack shape)" and "snd (quartet_result self q)"
  shows "snd (board_state_score self rack shape)"
proof (rule ccontr)
  assume "\<not> snd (board_state_score self rack shape)"
  then have "\<not> snd (quartet_result self q)"
    using no_win_quartets assms(1) by blast
  with assms(2) show False by simp
qed

lemma engine_move_wins_for_engine:
  assumes v: "valid_board rack shape" and c: "c < fst shape" "legal rack shape c"
    and nw: "\<not> snd (board_state_score self rack shape)"
    and w: "snd (board_state_score self (drop_disc rack c (ID self)) shape)"
  shows "board_state_score self (drop_disc rack c (ID self)) shape = (1000000000, True)"
proof (cases "scan (map (quartet_result self)
    (enumerated_quartets (drop_disc rack c (ID self)) shape)) 0")
  case (Inl win)
  then have "win \<in> set (map (quartet_result self)
      (enumerated_quartets (drop_disc rack c (ID self)) shape))" and sw: "snd win"
    using scan_Inl by blast+
  then obtain q' where q': "q' \<in> set (enumerated_quartets (drop_disc rack c (ID self)) shape)"
    and win: "win = quartet_result self q'"
    by auto
  from q' obtain k where k: "k < length (enumerated_quartets (drop_disc rack c (ID self)) shape)"
    and qk: "q' = enumerated_quartets (drop_disc rack c (ID self)) shape ! k"
    by (auto simp add: in_set_conv_nth)
  note rel = replaced_enumerated_quartets [OF v c, of "ID self"]
  have len: "length (enumerated_quartets rack shape)
      = length (enumerated_quartets (drop_disc rack c (ID self)) shape)"
    using rel by (rule list_all2_lengthD)
  have "replaced (ID self) (enumerated_quartets rack shape ! k) q'"
    using rel k len qk by (simp add: list_all2_conv_all_nth)
  moreover have "\<not> snd (quartet_result self (enumerated_quartets rack shape ! k))"
    using no_win_quartets [OF nw] k len by simp
  ultimately have "quartet_result self q' = (1000000000, True)"
    using sw win by (intro quartet_result_new_win) simp_all
  with Inl win show ?thesis
    by (simp add: board_state_score_scan)
next
  case (Inr score)
  with w show ?thesis
    by (simp add: board_state_score_scan)
qed

lemma heuristic_bound_7_6: "heuristic_bound (7, 6) = 16800"
  by (simp add: heuristic_bound_def)

text \<open>
  Claim C10, as amended: on a board of 7 columns and 6 rows of the data model with no four
  in a row yet, where the engine (id 1) has discs in row 0 of columns 0, 1 and 2 and the
  cell of column 3 in row 0 is empty, \<open>pick_move\<close> returns, for every ply budget, the
  leftmost column that is not full and where the engine's disc makes a four in a row.
  That column is column 3 or a column to its left; it is column 3 when no move in a
  column to the left of column 3 makes a four in a row.
\<close>

theorem pick_move_takes_immediate_win:
  assumes rk: "heap ! r = rack" and v: "valid_board rack (7, 6)" and id: "ID self = 1"
    and row: "rack ! 0 ! 0 = 1" "rack ! 1 ! 0 = 1" "rack ! 2 ! 0 = 1" "rack ! 3 ! 0 = 0"
    and nw: "\<not> snd (board_state_score self rack (7, 6))"
    and fc: "free_cells rack \<le> depth"
  shows "\<exists>c. fst (pick_move depth self heap r) = Inr (Some c)
      \<and> c \<le> 3 \<and> legal rack (7, 6) c
      \<and> board_state_score self (drop_disc rack c 1) (7, 6) = (1000000000, True)
      \<and> (\<forall>c' < c. legal rack (7, 6) c'
            \<longrightarrow> \<not> snd (board_state_score self (drop_disc rack c' 1) (7, 6)))
      \<and> ((\<forall>c' < 3. legal rack (7, 6) c'
             \<longrightarrow> \<not> snd (board_state_score self (drop_disc rack c' 1) (7, 6)))
          \<longrightarrow> c = 3)"
proof -
  let ?shape = "(7, 6) :: shape"
  let ?cs = "legal_from rack ?shape 0"
  let ?rack3 = "drop_disc rack 3 (ID self)"
  have id0: "ID self \<noteq> 0" using id by simp
  have c0: "length (rack ! 0) = 6"
    using valid_board_column(2) [OF v, of 0] by simp
  have len: "length rack = 7"
    using v by (simp add: valid_board_def)
  have sh: "?shape = (length rack, length (rack ! 0))"
    using c0 len by simp
  have small: "fst ?shape * snd ?shape < 25000000"
    by simp
  note col3 = valid_board_column [OF v, of 3, simplified]
  have h3: "height (rack ! 3) = 0"
    using height_less [of "rack ! 3" 0] row(4) col3(2) by simp
  have legal3: "legal rack ?shape 3"
    using above_height [OF col3(3), of 5] h3 col3(2) by (simp add: legal_def)
  have in3: "3 \<in> set ?cs"
    using legal3 by (simp add: legal_from_def)
  then have nf: "\<not> rack_full rack ?shape"
    by (auto simp add: rack_full_iff)
  have cell: "?rack3 ! a ! b = (if a = 3 \<and> b = 0 then 1 else rack ! a ! b)" for a b
    using drop_disc_cell [OF v _ legal3, of "ID self" a b] h3 id by simp
  have "(?rack3 ! 0 ! 0, ?rack3 ! (0 + 1) ! 0, ?rack3 ! (0 + 2) ! 0, ?rack3 ! (0 + 3) ! 0)
      \<in> set (horizontal_quartets ?rack3 ?shape)"
    unfolding horizontal_quartets_def by (simp del: One_nat_def) force
  moreover have "?rack3 ! 0 ! 0 = 1" "?rack3 ! 1 ! 0 = 1" "?rack3 ! 2 ! 0 = 1" "?rack3 ! 3 ! 0 = 1"
    using row by (simp_all add: cell)
  ultimately have "(1, 1, 1, 1) \<in> set (horizontal_quartets ?rack3 ?shape)"
    by (simp only: add_0)
  then have "(1, 1, 1, 1) \<in> set (enumerated_quartets ?rack3 ?shape)"
    by (simp add: enumerated_quartets_def)
  moreover have "snd (quartet_result self (1, 1, 1, 1))"
    by (simp add: quartet_result_def quartet_score_def)
  ultimately have w3: "snd (board_state_score self ?rack3 ?shape)"
    by (rule win_quartet)
  from pick_move_result [OF rk sh v id0 fc small nf] obtain score c where
    children: "\<forall>c' \<in> set ?cs.
          minimax depth self (drop_disc rack c' (ID self)) ?shape 1
            = Inr (score c', drop_disc rack c' (ID self))
          \<and> \<bar>score c'\<bar> \<le> max 1000000001 (heuristic_bound ?shape)
          \<and> (\<not> snd (board_state_score self (drop_disc rack c' (ID self)) ?shape)
               \<longrightarrow> \<bar>score c'\<bar> \<le> max 500000001 (heuristic_bound ?shape))
          \<and> (snd (board_state_score self (drop_disc rack c' (ID self)) ?shape)
               \<longrightarrow> int_true_divide
                     (fst (board_state_score self (drop_disc rack c' (ID self)) ?shape)) 1
                   = Inr (score c'))"
    and res: "pick_move depth self heap r = (Inr (Some c), heap @ [rack])"
    and c: "c \<in> set ?cs"
    and best: "\<forall>c' \<in> set ?cs. score c' \<le> score c"
    and leftmost: "\<forall>c' \<in> set ?cs. c' < c \<longrightarrow> score c' < score c"
    by blast
  have wins: "board_state_score self (drop_disc rack c' (ID self)) ?shape = (1000000000, True)
      \<and> score c' = 1000000000"
    if c': "c' \<in> set ?cs" and w: "snd (board_state_score self (drop_disc rack c' (ID self)) ?shape)"
    for c'
  proof -
    have l: "c' < fst ?shape" "legal rack ?shape c'"
      using c' legal_from_set by blast+
    have b: "board_state_score self (drop_disc rack c' (ID self)) ?shape = (1000000000, True)"
      using v l nw w by (rule engine_move_wins_for_engine)
    have "int_true_divide (fst (board_state_score self (drop_disc rack c' (ID self)) ?shape)) 1
        = Inr (score c')"
      using children c' w by blast
    then have "score c' = 1000000000"
      by (simp only: b fst_conv win_quotient_at_ply_1 sum.inject)
    with b show ?thesis
      by simp
  qed
  have loses: "score c' < 1000000000"
    if c': "c' \<in> set ?cs"
      and w: "\<not> snd (board_state_score self (drop_disc rack c' (ID self)) ?shape)" for c'
  proof -
    have "\<bar>score c'\<bar> \<le> max 500000001 (heuristic_bound ?shape)"
      using children c' w by blast
    then show ?thesis
      by (simp add: heuristic_bound_7_6)
  qed
  have s3: "score 3 = 1000000000"
    using wins [OF in3 w3] by simp
  have s3c: "score 3 \<le> score c"
    using best in3 by blast
  have wc: "snd (board_state_score self (drop_disc rack c (ID self)) ?shape)"
  proof (rule ccontr)
    assume "\<not> snd (board_state_score self (drop_disc rack c (ID self)) ?shape)"
    then have "score c < 1000000000"
      using c by (rule loses [rotated])
    with s3 s3c show False
      by simp
  qed
  note bc = wins [OF c wc]
  have le3: "c \<le> 3"
  proof (rule ccontr)
    assume "\<not> c \<le> 3"
    then have "score 3 < score c"
      using leftmost in3 by simp
    with s3 bc show False
      by simp
  qed
  have lc: "legal rack ?shape c"
    using c legal_from_set by blast
  have before: "\<not> snd (board_state_score self (drop_disc rack c' (ID self)) ?shape)"
    if lt: "c' < c" and l: "legal rack ?shape c'" for c'
  proof
    assume w: "snd (board_state_score self (drop_disc rack c' (ID self)) ?shape)"
    have "c' < fst ?shape"
      using lt le3 by simp
    with l have c': "c' \<in> set ?cs"
      by (simp add: legal_from_def)
    have "score c' < score c"
      using leftmost c' lt by blast
    with wins [OF c' w] bc show False
      by simp
  qed
  have only: "c = 3"
    if left: "\<forall>c' < 3. legal rack ?shape c'
        \<longrightarrow> \<not> snd (board_state_score self (drop_disc rack c' (ID self)) ?shape)"
  proof (rule ccontr)
    assume "c \<noteq> 3"
    with le3 have "c < 3" by simp
    with left lc wc show False
      by blast
  qed
  from res have "fst (pick_move depth self heap r) = Inr (Some c)"
    by simp
  with le3 lc bc before only show ?thesis
    unfolding id by blast
qed

theorem pick_move_takes_immediate_win_witness:
  "fst (pick_move 36 \<lparr>ID = 1, MAX_PLIES = 2\<rparr>
     [[[1, 2, 0, 0, 0, 0], [1, 2, 0, 0, 0, 0], [1, 0, 0, 0, 0, 0], [0, 0, 0, 0, 0, 0],
       [2, 0, 0, 0, 0, 0], [0, 0, 0, 0, 0, 0], [0, 0, 0, 0, 0, 0]]] 0) = Inr (Some 3)"
proof -
  let ?self = "\<lparr>ID = 1, MAX_PLIES = 2\<rparr>"
  let ?rack = "[[1, 2, 0, 0, 0, 0], [1, 2, 0, 0, 0, 0], [1, 0, 0, 0, 0, 0], [0, 0, 0, 0, 0, 0],
       [2, 0, 0, 0, 0, 0], [0, 0, 0, 0, 0, 0], [0, 0, 0, 0, 0, 0]] :: rack"
  have v: "valid_board ?rack (7, 6)"
    by code_simp
  have nw: "\<not> snd (board_state_score ?self ?rack (7, 6))"
    by code_simp
  have fc: "free_cells ?rack \<le> 36"
    by code_simp
  have l0: "\<not> snd (board_state_score ?self (drop_disc ?rack 0 1) (7, 6))"
    by code_simp
  have l1: "\<not> snd (board_state_score ?self (drop_disc ?rack 1 1) (7, 6))"
    by code_simp
  have l2: "\<not> snd (board_state_score ?self (drop_disc ?rack 2 1) (7, 6))"
    by code_simp
  have left: "\<forall>c < 3. legal ?rack (7, 6) c
        \<longrightarrow> \<not> snd (board_state_score ?self (drop_disc ?rack c 1) (7, 6))"
  proof (intro allI impI)
    fix c :: nat
    assume "c < 3"
    then consider "c = 0" | "c = 1" | "c = 2" by linarith
    then show "\<not> snd (board_state_score ?self (drop_disc ?rack c 1) (7, 6))"
      using l0 l1 l2 by cases simp_all
  qed
  have rk: "[?rack] ! 0 = ?rack" and id: "ID ?self = 1"
    and row: "?rack ! 0 ! 0 = 1" "?rack ! 1 ! 0 = 1" "?rack ! 2 ! 0 = 1" "?rack ! 3 ! 0 = 0"
    by simp_all
  from pick_move_takes_immediate_win [OF rk v id row nw fc] obtain c where
    "fst (pick_move 36 ?self [?rack] 0) = Inr (Some c)"
    and "(\<forall>c' < 3. legal ?rack (7, 6) c'
             \<longrightarrow> \<not> snd (board_state_score ?self (drop_disc ?rack c' 1) (7, 6)))
          \<longrightarrow> c = 3"
    by blast
  with left show ?thesis
    by (simp only:)
qed

text \<open>
  Claim C10 as stated fails: here the engine has three discs in row 0 of columns 0 to 2
  and column 3 is empty, but column 0 holds three engine discs as well. Both column 0 and
  column 3 win at once with the same score, and the leftmost one, column 0, is returned.
\<close>

theorem pick_move_immediate_win_counterexample:
  "valid_board [[1, 1, 1, 0, 0, 0], [1, 2, 0, 0, 0, 0], [1, 2, 0, 0, 0, 0], [0, 0, 0, 0, 0, 0],
       [2, 0, 0, 0, 0, 0], [2, 0, 0, 0, 0, 0], [2, 0, 0, 0, 0, 0]] (7, 6)
   \<and> \<not> snd (board_state_score \<lparr>ID = 1, MAX_PLIES = 1\<rparr>
       [[1, 1, 1, 0, 0, 0], [1, 2, 0, 0, 0, 0], [1, 2, 0, 0, 0, 0], [0, 0, 0, 0, 0, 0],
        [2, 0, 0, 0, 0, 0], [2, 0, 0, 0, 0, 0], [2, 0, 0, 0, 0, 0]] (7, 6))
   \<and> fst (pick_move 1 \<lparr>ID = 1, MAX_PLIES = 1\<rparr>
       [[[1, 1, 1, 0, 0, 0], [1, 2, 0, 0, 0, 0], [1, 2, 0, 0, 0, 0], [0, 0, 0, 0, 0, 0],
         [2, 0, 0, 0, 0, 0], [2, 0, 0, 0, 0, 0], [2, 0, 0, 0, 0, 0]]] 0) = Inr (Some 0)
   \<and> fst (pick_move 1 \<lparr>ID = 1, MAX_PLIES = 1\<rparr>
       [[[1, 1, 1, 0, 0, 0], [1, 2, 0, 0, 0, 0], [1, 2, 0, 0, 0, 0], [0, 0, 0, 0, 0, 0],
         [2, 0, 0, 0, 0, 0], [2, 0, 0, 0, 0, 0], [2, 0, 0, 0, 0, 0]]] 0) \<noteq> Inr (Some 3)"
  by code_simp

text \<open>
  On a board where the opponent already has four in a row, every move scores the same
  loss and the leftmost column is returned.
\<close>

lemma pick_move_after_four_in_a_row:
  "fst (pick_move 1 \<lparr>ID = 1, MAX_PLIES = 1\<rparr>
       [[[1, 0, 0, 0, 0, 0], [1, 0, 0, 0, 0, 0], [1, 0, 0, 0, 0, 0], [0, 0, 0, 0, 0, 0],
         [2, 2, 2, 2, 0, 0], [0, 0, 0, 0, 0, 0], [0, 0, 0, 0, 0, 0]]] 0) = Inr (Some 0)"
  by code_simp

end
